theory Spec2Isabelle
  imports Complex_Main "HOL-Library.Word"
begin

section \<open>PCM audio processing and export: data model\<close>

text \<open>
  The development embeds the audio utilities (\<^verbatim>\<open>convertToPCM\<close>, the buffer transforms)
  and the PCM exporters (\<^verbatim>\<open>exportAsCArray\<close>, \<^verbatim>\<open>exportAsWAV\<close>).

  Numbers. A JavaScript number is an IEEE 754 binary64 value and an element of a
  \<^verbatim>\<open>Float32Array\<close> a binary32 value. The model computes in the reals and rounds where
  the code rounds: the result of \<open>+\<close>, \<open>-\<close>, \<open>*\<close>, \<open>/\<close> on samples, gains, ratios and
  times is \<open>binary64\<close> of the exact result, and what is stored into a \<^verbatim>\<open>Float32Array\<close>
  is \<open>float32\<close> of the value. Sample counts, channel counts and sample rates are
  naturals. A result that can be \<^verbatim>\<open>Infinity\<close> or \<^verbatim>\<open>NaN\<close> is a \<open>number\<close>.

  Errors. An exception of the platform (and the rejection of the promise an \<^verbatim>\<open>async\<close>
  function returns) is the left summand of the result. The value \<open>NoReturn\<close> beside
  the exceptions stands for a loop that does not end, so that every function of the
  model has a value.
\<close>

datatype error = NotSupportedError | IndexSizeError | RangeError | TypeError | NoReturn

type_synonym byte = "8 word"

subsection \<open>Numbers\<close>

text \<open>
  Rounding to the nearest number of a binary format, a tie to the one with the even
  significand: \<open>round_to p emin\<close> is the format with \<open>p\<close> fraction bits and least
  exponent \<open>emin\<close>. A number \<open>x\<close> with \<open>2\<^sup>e \<le> \<bar>x\<bar> < 2\<^sup>e\<^sup>+\<^sup>1\<close> is rounded to a multiple of
  \<open>2\<^sup>e\<^sup>-\<^sup>p\<close>, and below \<open>2\<^sup>e\<^sup>m\<^sup>i\<^sup>n\<close> to a multiple of \<open>2\<^sup>e\<^sup>m\<^sup>i\<^sup>n\<^sup>-\<^sup>p\<close> (the subnormal numbers).
  \<open>ulp_exp\<close> is the exponent of that unit.
\<close>

definition round_half_even :: "real \<Rightarrow> int" where
  "round_half_even y =
     (let f = \<lfloor>y\<rfloor>; d = y - of_int f
      in if d < 1 / 2 then f else if 1 / 2 < d then f + 1 else if even f then f else f + 1)"

definition round_to :: "int \<Rightarrow> int \<Rightarrow> real \<Rightarrow> real" where
  "round_to p emin x =
     (if x = 0 then 0
      else let e = max \<lfloor>log 2 \<bar>x\<bar>\<rfloor> emin
           in of_int (round_half_even (x / 2 powr of_int (e - p))) * 2 powr of_int (e - p))"

definition ulp_exp :: "int \<Rightarrow> real \<Rightarrow> int" where
  "ulp_exp emin x = max \<lfloor>log 2 \<bar>x\<bar>\<rfloor> emin"

definition binary64 :: "real \<Rightarrow> real" where
  "binary64 x = round_to 52 (- 1022) x"

definition float32 :: "real \<Rightarrow> real" where
  "float32 x = round_to 23 (- 126) x"

text \<open>A finite element of a \<^verbatim>\<open>Float32Array\<close>: storing it again changes nothing.\<close>

definition is_float32 :: "real \<Rightarrow> bool" where
  "is_float32 x \<longleftrightarrow> float32 x = x \<and> \<bar>x\<bar> < 2 ^ 128"

text \<open>
  A number that need not be finite. \<open>NotFinite\<close> is \<^verbatim>\<open>Infinity\<close>, \<^verbatim>\<open>-Infinity\<close> or
  \<^verbatim>\<open>NaN\<close>: the code under study treats the three alike. An exact result of magnitude
  \<open>2\<^sup>1\<^sup>0\<^sup>2\<^sup>4 - 2\<^sup>9\<^sup>7\<^sup>0\<close> or more rounds to an infinity.
\<close>

datatype number = Num real | NotFinite

definition to_number :: "real \<Rightarrow> number" where
  "to_number x = (if 2 ^ 1024 - 2 ^ 970 \<le> \<bar>x\<bar> then NotFinite else Num (binary64 x))"

text \<open>
  \<^verbatim>\<open>a / b\<close> for a finite \<open>a > 0\<close>: a division by zero is an infinity. A divisor that is
  not finite comes from \<^verbatim>\<open>Math.pow\<close> alone and is \<^verbatim>\<open>Infinity\<close>, and the quotient is \<open>0\<close>.
\<close>

definition divide_by :: "real \<Rightarrow> number \<Rightarrow> number" where
  "divide_by a b =
     (case b of
        NotFinite \<Rightarrow> Num 0
      | Num y \<Rightarrow> if y = 0 then NotFinite else to_number (a / y))"

definition math_floor :: "number \<Rightarrow> number" where
  "math_floor v = (case v of NotFinite \<Rightarrow> NotFinite | Num x \<Rightarrow> Num (of_int \<lfloor>x\<rfloor>))"

text \<open>
  \<^verbatim>\<open>Math.pow(2, y)\<close>, taken as the binary64 number nearest to \<open>2\<^sup>y\<close>: \<open>1\<close> for \<open>y = 0\<close>,
  \<^verbatim>\<open>Infinity\<close> when \<open>2\<^sup>y\<close> overflows and \<open>0\<close> when it underflows.
\<close>

definition math_pow2 :: "real \<Rightarrow> number" where
  "math_pow2 y = to_number (2 powr y)"

text \<open>
  The conversion of a number to the \<^verbatim>\<open>unsigned long\<close> of a Web IDL operation:
  \<^verbatim>\<open>NaN\<close> and the infinities become \<open>0\<close>, any other number is truncated towards zero
  and taken modulo \<open>2\<^sup>3\<^sup>2\<close>.
\<close>

definition to_unsigned_long :: "number \<Rightarrow> nat" where
  "to_unsigned_long v =
     (case v of
        NotFinite \<Rightarrow> 0
      | Num x \<Rightarrow> nat ((if x < 0 then - \<lfloor>- x\<rfloor> else \<lfloor>x\<rfloor>) mod 2 ^ 32))"

text \<open>
  An \<^verbatim>\<open>AudioBuffer\<close> of the Web Audio API: \<^verbatim>\<open>numberOfChannels\<close>, \<^verbatim>\<open>length\<close> (sample
  frames per channel), \<^verbatim>\<open>sampleRate\<close> and one \<^verbatim>\<open>Float32Array\<close> per channel.
\<close>

record AudioBuffer =
  numberOfChannels :: nat
  buf_length :: nat
  sampleRate :: nat
  channels :: "real list list"

text \<open>
  The platform only hands out buffers with at least one channel, at least one frame (and
  fewer than \<open>2\<^sup>3\<^sup>2\<close>: \<^verbatim>\<open>length\<close> is an \<^verbatim>\<open>unsigned long\<close>), a positive rate, and channel
  arrays of exactly \<^verbatim>\<open>length\<close> samples, each a finite \<^verbatim>\<open>Float32Array\<close> element.
\<close>

definition wf_buffer :: "AudioBuffer \<Rightarrow> bool" where
  "wf_buffer b \<longleftrightarrow>
     1 \<le> numberOfChannels b \<and> 1 \<le> buf_length b \<and> buf_length b < 2 ^ 32 \<and>
     0 < sampleRate b \<and>
     length (channels b) = numberOfChannels b \<and>
     list_all (\<lambda>c. length c = buf_length b \<and> list_all is_float32 c) (channels b)"

text \<open>\<^verbatim>\<open>audioBuffer.getChannelData(c)\<close>: an index past the last channel raises.\<close>

definition getChannelData :: "AudioBuffer \<Rightarrow> nat \<Rightarrow> error + real list" where
  "getChannelData b c =
     (if c < numberOfChannels b \<and> c < length (channels b) then Inr (channels b ! c)
      else Inl IndexSizeError)"

text \<open>\<^verbatim>\<open>PCMOptions\<close>: the target rate; \<^verbatim>\<open>bitDepth\<close> is the constant 8.\<close>

record PCMOptions =
  pcm_sampleRate :: nat

subsection \<open>Typed arrays and arithmetic helpers\<close>

text \<open>
  \<^verbatim>\<open>arr[k]\<close> on a typed array is \<^verbatim>\<open>undefined\<close> outside the array; \<^verbatim>\<open>x || 0\<close> is
  \<open>0\<close> for \<^verbatim>\<open>undefined\<close> and for the falsy number \<open>0\<close>, and \<open>x\<close> otherwise.
\<close>

definition typed_get :: "real list \<Rightarrow> int \<Rightarrow> real option" where
  "typed_get arr k = (if 0 \<le> k \<and> k < int (length arr) then Some (arr ! nat k) else None)"

definition or_zero :: "real option \<Rightarrow> real" where
  "or_zero v = (case v of None \<Rightarrow> 0 | Some x \<Rightarrow> (if x = 0 then 0 else x))"

text \<open>\<^verbatim>\<open>Math.round\<close> rounds a half up: it is \<open>\<lfloor>x + 1/2\<rfloor>\<close>.\<close>

definition math_round :: "real \<Rightarrow> int" where
  "math_round x = \<lfloor>x + 1 / 2\<rfloor>"

text \<open>\<^verbatim>\<open>Math.max(-1, Math.min(1, x))\<close>.\<close>

definition clamp1 :: "real \<Rightarrow> real" where
  "clamp1 x = max (- 1) (min 1 x)"

text \<open>
  A counting loop \<^verbatim>\<open>for (let i = i0; i < n; i++) arr[i] = f(i)\<close> over an array that
  was allocated before the loop. A write past the end of a typed array is ignored, as
  \<open>arr[i := v]\<close> is.
\<close>

function fill_loop :: "nat \<Rightarrow> nat \<Rightarrow> (nat \<Rightarrow> 'a) \<Rightarrow> 'a list \<Rightarrow> 'a list" where
  "fill_loop i n f arr = (if i < n then fill_loop (Suc i) n f (arr[i := f i]) else arr)"
  by pat_completeness auto
termination
  by (relation "measure (\<lambda>(i, n, f, arr). n - i)") auto

declare fill_loop.simps [simp del]

text \<open>
  The body the resamplers share (it is written out three times in the source): the
  sample at the fractional position \<open>sourceIndex\<close>, by linear interpolation between the
  two neighbours, or the last sample alone (\<open>0\<close> when there is none). Every operation
  of \<^verbatim>\<open>sourceData[index] * (1 - fraction) + sourceData[index + 1] * fraction\<close> rounds.
  The loops only pass a \<open>sourceIndex \<ge> 0\<close>, so that \<open>index\<close> and \<open>index + 1\<close> are
  positions of the array in the first branch; a negative position, where the source
  would compute \<^verbatim>\<open>NaN\<close>, does not occur.
\<close>

definition interpolate :: "real list \<Rightarrow> real \<Rightarrow> real" where
  "interpolate sourceData sourceIndex =
     (let index = \<lfloor>sourceIndex\<rfloor>;
          fraction = binary64 (sourceIndex - of_int index)
      in if index + 1 < int (length sourceData)
         then binary64 (binary64 (sourceData ! nat index * binary64 (1 - fraction)) +
                        binary64 (sourceData ! nat (index + 1) * fraction))
         else or_zero (typed_get sourceData index))"

section \<open>The PCM encoder\<close>

text \<open>
  \<^verbatim>\<open>new Uint8Array(n)\<close>: zero-filled; a negative length raises \<^verbatim>\<open>RangeError\<close>.
\<close>

definition new_Uint8Array :: "int \<Rightarrow> error + byte list" where
  "new_Uint8Array n = (if n < 0 then Inl RangeError else Inr (replicate (nat n) 0))"

text \<open>
  One iteration of the loop of \<^verbatim>\<open>convertToPCM\<close>: the position
  \<^verbatim>\<open>(i * sourceSampleRate) / sampleRate\<close>, the sample there, clamped, and
  \<^verbatim>\<open>Math.round((sample + 1) * 127.5)\<close>, each operation rounding. The store into the
  \<^verbatim>\<open>Uint8Array\<close> keeps the value modulo 256, which is \<open>of_int\<close> into \<open>8 word\<close>.
\<close>

definition pcm_sample :: "real list \<Rightarrow> nat \<Rightarrow> nat \<Rightarrow> nat \<Rightarrow> real" where
  "pcm_sample sourceData sourceSampleRate rate i =
     clamp1 (interpolate sourceData
               (binary64 (binary64 (real (i * sourceSampleRate)) / real rate)))"

definition pcm_byte :: "real list \<Rightarrow> nat \<Rightarrow> nat \<Rightarrow> nat \<Rightarrow> byte" where
  "pcm_byte sourceData sourceSampleRate rate i =
     of_int (math_round
               (binary64 (binary64 (pcm_sample sourceData sourceSampleRate rate i + 1) *
                          (255 / 2))))"

text \<open>
  \<^verbatim>\<open>convertToPCM(audioBuffer, options)\<close>. With a source rate of \<open>0\<close> the quotient is
  \<^verbatim>\<open>NaN\<close> (an empty array) or \<^verbatim>\<open>Infinity\<close> (\<^verbatim>\<open>RangeError\<close>); a buffer of the platform
  never has it. The length \<^verbatim>\<open>Math.floor((sourceData.length * sampleRate) / sourceSampleRate)\<close>
  is the floor of the exact quotient: the floor of the rounded quotient of two whole
  numbers is that of the exact one as long as the product \<open>sourceData.length * sampleRate\<close>
  is below \<open>2\<^sup>5\<^sup>3\<close>, as it is for a 32-bit length and a rate below \<open>2\<^sup>2\<^sup>1\<close>.
\<close>

definition convertToPCM :: "AudioBuffer \<Rightarrow> PCMOptions \<Rightarrow> error + byte list" where
  "convertToPCM audioBuffer options =
     (let rate = pcm_sampleRate options;
          sourceSampleRate = sampleRate audioBuffer
      in case getChannelData audioBuffer 0 of
           Inl e \<Rightarrow> Inl e
         | Inr sourceData \<Rightarrow>
             if sourceSampleRate = 0
             then (if length sourceData * rate = 0 then Inr [] else Inl RangeError)
             else
               let targetLength = \<lfloor>real (length sourceData * rate) / real sourceSampleRate\<rfloor>
               in case new_Uint8Array targetLength of
                    Inl e \<Rightarrow> Inl e
                  | Inr pcmData \<Rightarrow>
                      Inr (fill_loop 0 (nat targetLength)
                             (pcm_byte sourceData sourceSampleRate rate) pcmData))"

section \<open>The transform library\<close>

subsection \<open>The store of audio buffers\<close>

text \<open>
  A transform receives a reference to an \<^verbatim>\<open>AudioBuffer\<close> and returns a reference: to a
  buffer it created, or (in one case) the reference it was given. The store lists the
  buffers that exist; a reference is a position in it, and creating a buffer appends one.
\<close>

type_synonym ref = nat
type_synonym store = "AudioBuffer list"

text \<open>
  Reading through a reference. The source only holds references to buffers that exist;
  a position outside the store is answered with \<^verbatim>\<open>TypeError\<close>, to keep the model total.
\<close>

definition deref :: "store \<Rightarrow> ref \<Rightarrow> error + AudioBuffer" where
  "deref h r = (if r < length h then Inr (h ! r) else Inl TypeError)"

text \<open>\<^verbatim>\<open>buffer.getChannelData(c)\<close> through a reference.\<close>

definition channel_of :: "store \<Rightarrow> ref \<Rightarrow> nat \<Rightarrow> error + real list" where
  "channel_of h r c = (case deref h r of Inl e \<Rightarrow> Inl e | Inr b \<Rightarrow> getChannelData b c)"

text \<open>
  The array \<^verbatim>\<open>getChannelData\<close> returns is the buffer's own: what a loop writes into it
  is the new content of that channel of the buffer in the store.
\<close>

definition store_channel :: "store \<Rightarrow> ref \<Rightarrow> nat \<Rightarrow> real list \<Rightarrow> store" where
  "store_channel h r c data = h[r := (h ! r)\<lparr>channels := (channels (h ! r))[c := data]\<rparr>]"

text \<open>
  \<^verbatim>\<open>audioContext.createBuffer(numberOfChannels, length, sampleRate)\<close> of the Web Audio API:
  a new buffer of silence. The \<^verbatim>\<open>length\<close> it is called with is a number, which
  arrives as an \<^verbatim>\<open>unsigned long\<close>; it raises \<^verbatim>\<open>NotSupportedError\<close> when an argument is
  zero: a buffer has at least one frame. The largest channel count and rate of a
  platform and the memory it has are not modelled.
\<close>

definition createBuffer :: "store \<Rightarrow> nat \<Rightarrow> number \<Rightarrow> nat \<Rightarrow> error + store \<times> ref" where
  "createBuffer h nch len rate =
     (let frames = to_unsigned_long len
      in if 1 \<le> nch \<and> 1 \<le> frames \<and> 0 < rate
         then Inr (h @ [\<lparr>numberOfChannels = nch, buf_length = frames, sampleRate = rate,
                         channels = replicate nch (replicate frames 0)\<rparr>], length h)
         else Inl NotSupportedError)"

text \<open>
  \<^verbatim>\<open>for (let channel = c; channel < n; channel++) body\<close>, where the body updates the
  store or raises.
\<close>

function for_channels ::
  "nat \<Rightarrow> nat \<Rightarrow> (nat \<Rightarrow> store \<Rightarrow> error + store) \<Rightarrow> store \<Rightarrow> error + store" where
  "for_channels channel n body h =
     (if channel < n
      then (case body channel h of
              Inl e \<Rightarrow> Inl e
            | Inr h' \<Rightarrow> for_channels (Suc channel) n body h')
      else Inr h)"
  by pat_completeness auto
termination
  by (relation "measure (\<lambda>(channel, n, body, h). n - channel)") auto

declare for_channels.simps [simp del]

text \<open>
  The loop body the transforms share:
  \<^verbatim>\<open>sourceData = audioBuffer.getChannelData(channel)\<close>,
  \<^verbatim>\<open>targetData = newBuffer.getChannelData(channel)\<close>, then a computation \<open>write\<close> that
  fills \<open>targetData\<close> from \<open>sourceData\<close>.
\<close>

definition channel_step ::
  "(real list \<Rightarrow> real list \<Rightarrow> error + real list) \<Rightarrow> ref \<Rightarrow> ref \<Rightarrow> nat \<Rightarrow> store \<Rightarrow> error + store"
  where
  "channel_step write audioBuffer newBuffer channel h =
     (case channel_of h audioBuffer channel of
        Inl e \<Rightarrow> Inl e
      | Inr sourceData \<Rightarrow>
          (case channel_of h newBuffer channel of
             Inl e \<Rightarrow> Inl e
           | Inr targetData \<Rightarrow>
               (case write sourceData targetData of
                  Inl e \<Rightarrow> Inl e
                | Inr data \<Rightarrow> Inr (store_channel h newBuffer channel data))))"

text \<open>The channel loop, then \<^verbatim>\<open>return newBuffer\<close>.\<close>

definition fill_channels ::
  "(real list \<Rightarrow> real list \<Rightarrow> error + real list) \<Rightarrow> ref \<Rightarrow> nat \<Rightarrow> store \<times> ref \<Rightarrow> error + store \<times> ref"
  where
  "fill_channels write audioBuffer n created =
     (case created of (h, newBuffer) \<Rightarrow>
        (case for_channels 0 n (channel_step write audioBuffer newBuffer) h of
           Inl e \<Rightarrow> Inl e
         | Inr h' \<Rightarrow> Inr (h', newBuffer)))"

subsection \<open>Typed-array views and copies\<close>

text \<open>
  \<^verbatim>\<open>arr.subarray(begin, end)\<close>: a negative index counts from the end, and both are
  clamped to the array. \<^verbatim>\<open>target.set(source, offset)\<close> raises \<^verbatim>\<open>RangeError\<close> when the
  source does not fit.
\<close>

definition subarray :: "'a list \<Rightarrow> int \<Rightarrow> int \<Rightarrow> 'a list" where
  "subarray arr begin end =
     (let len = int (length arr);
          b = (if begin < 0 then max (len + begin) 0 else min begin len);
          e = (if end < 0 then max (len + end) 0 else min end len)
      in take (nat (e - b)) (drop (nat b) arr))"

definition typed_set :: "'a list \<Rightarrow> 'a list \<Rightarrow> int \<Rightarrow> error + 'a list" where
  "typed_set target source offset =
     (if offset < 0 \<or> int (length target) < int (length source) + offset then Inl RangeError
      else Inr (take (nat offset) target @ source @
                drop (nat offset + length source) target))"

subsection \<open>Normalize\<close>

text \<open>
  The peak search: \<^verbatim>\<open>max = Math.max(max, Math.abs(channelData[i]))\<close> for every \<open>i\<close>.
  The literal \<^verbatim>\<open>0.95\<close> is the number nearest to \<open>95/100\<close>; \<^verbatim>\<open>channelData.map\<close> returns
  a \<^verbatim>\<open>Float32Array\<close>, so each product is rounded twice: as a number, then as an element.
\<close>

fun peak_loop :: "real \<Rightarrow> real list \<Rightarrow> real" where
  "peak_loop m [] = m"
| "peak_loop m (x # xs) = peak_loop (max m \<bar>x\<bar>) xs"

definition normalize_step :: "real list \<Rightarrow> ref \<Rightarrow> ref \<Rightarrow> nat \<Rightarrow> store \<Rightarrow> error + store" where
  "normalize_step normalizedData audioBuffer newBuffer channel h =
     (case channel_of h newBuffer channel of
        Inl e \<Rightarrow> Inl e
      | Inr data \<Rightarrow>
          (case (if channel = 0 then Inr normalizedData
                 else channel_of h audioBuffer channel) of
             Inl e \<Rightarrow> Inl e
           | Inr sourceData \<Rightarrow>
               (case typed_set data sourceData 0 of
                  Inl e \<Rightarrow> Inl e
                | Inr data' \<Rightarrow> Inr (store_channel h newBuffer channel data'))))"

definition normalizeAudio :: "store \<Rightarrow> ref \<Rightarrow> error + store \<times> ref" where
  "normalizeAudio h audioBuffer =
     (case deref h audioBuffer of
        Inl e \<Rightarrow> Inl e
      | Inr ab \<Rightarrow>
          (case getChannelData ab 0 of
             Inl e \<Rightarrow> Inl e
           | Inr channelData \<Rightarrow>
               let mx = peak_loop 0 channelData in
               if mx = 0 then Inr (h, audioBuffer)
               else
                 let gain = binary64 (binary64 (95 / 100) / mx);
                     normalizedData =
                       map (\<lambda>sample. float32 (binary64 (sample * gain))) channelData
                 in case createBuffer h (numberOfChannels ab) (Num (real (buf_length ab)))
                           (sampleRate ab) of
                      Inl e \<Rightarrow> Inl e
                    | Inr (h1, newBuffer) \<Rightarrow>
                        (case for_channels 0 (numberOfChannels ab)
                                (normalize_step normalizedData audioBuffer newBuffer) h1 of
                           Inl e \<Rightarrow> Inl e
                         | Inr h2 \<Rightarrow> Inr (h2, newBuffer))))"

subsection \<open>Amplify\<close>

text \<open>
  \<^verbatim>\<open>targetData[i] = Math.max(-1, Math.min(1, sourceData[i] * gain))\<close>: the product is
  rounded as a number, clamped, and rounded as an element of the \<^verbatim>\<open>Float32Array\<close>. A
  product that overflows is an infinity in the source and a large number here; the clamp
  makes the same of both.
\<close>

definition amplify_write :: "real \<Rightarrow> real list \<Rightarrow> real list \<Rightarrow> error + real list" where
  "amplify_write gain sourceData targetData =
     Inr (fill_loop 0 (length sourceData)
            (\<lambda>i. float32 (clamp1 (binary64 (sourceData ! i * gain)))) targetData)"

definition amplifyAudio :: "store \<Rightarrow> ref \<Rightarrow> real \<Rightarrow> error + store \<times> ref" where
  "amplifyAudio h audioBuffer gain =
     (case deref h audioBuffer of
        Inl e \<Rightarrow> Inl e
      | Inr ab \<Rightarrow>
          (case createBuffer h (numberOfChannels ab) (Num (real (buf_length ab)))
                  (sampleRate ab) of
             Inl e \<Rightarrow> Inl e
           | Inr created \<Rightarrow>
               fill_channels (amplify_write gain) audioBuffer (numberOfChannels ab) created))"

subsection \<open>Pitch shift and speed change\<close>

text \<open>
  The inner loop of both, \<^verbatim>\<open>for (let i = 0; i < newLength; i++)\<close>: the \<open>i\<close>-th sample
  is interpolated at \<^verbatim>\<open>i * ratio\<close> and stored into the \<^verbatim>\<open>Float32Array\<close>. The counter is
  a number: at \<open>2\<^sup>5\<^sup>3\<close> the step \<^verbatim>\<open>i++\<close> leaves it where it is, so the loop to a larger
  bound does not end. A bound or a ratio that is not finite does not reach the loop
  (\<^verbatim>\<open>createBuffer\<close> has raised).
\<close>

definition resample_write ::
  "number \<Rightarrow> number \<Rightarrow> real list \<Rightarrow> real list \<Rightarrow> error + real list" where
  "resample_write ratio newLength sourceData targetData =
     (case (ratio, newLength) of
        (Num r, Num n) \<Rightarrow>
          if 2 ^ 53 < n then Inl NoReturn
          else Inr (fill_loop 0 (nat \<lceil>n\<rceil>)
                      (\<lambda>i. float32 (interpolate sourceData (binary64 (real i * r))))
                      targetData)
      | _ \<Rightarrow> Inl NoReturn)"

text \<open>
  \<^verbatim>\<open>ratio = Math.pow(2, semitones / 12)\<close> and
  \<^verbatim>\<open>newLength = Math.floor(audioBuffer.length / ratio)\<close>.
\<close>

definition pitchShift :: "store \<Rightarrow> ref \<Rightarrow> real \<Rightarrow> error + store \<times> ref" where
  "pitchShift h audioBuffer semitones =
     (case deref h audioBuffer of
        Inl e \<Rightarrow> Inl e
      | Inr ab \<Rightarrow>
          let ratio = math_pow2 (binary64 (semitones / 12));
              newLength = math_floor (divide_by (real (buf_length ab)) ratio)
          in case createBuffer h (numberOfChannels ab) newLength (sampleRate ab) of
               Inl e \<Rightarrow> Inl e
             | Inr created \<Rightarrow>
                 fill_channels (resample_write ratio newLength) audioBuffer
                   (numberOfChannels ab) created)"

text \<open>
  With \<open>speed = 0\<close> the quotient \<^verbatim>\<open>audioBuffer.length / speed\<close> is an infinity, which
  reaches \<^verbatim>\<open>createBuffer\<close> as a frame count of \<open>0\<close>.
\<close>

definition changeSpeed :: "store \<Rightarrow> ref \<Rightarrow> real \<Rightarrow> error + store \<times> ref" where
  "changeSpeed h audioBuffer speed =
     (case deref h audioBuffer of
        Inl e \<Rightarrow> Inl e
      | Inr ab \<Rightarrow>
          let newLength = math_floor (divide_by (real (buf_length ab)) (Num speed))
          in case createBuffer h (numberOfChannels ab) newLength (sampleRate ab) of
               Inl e \<Rightarrow> Inl e
             | Inr created \<Rightarrow>
                 fill_channels (resample_write (Num speed) newLength) audioBuffer
                   (numberOfChannels ab) created)"

subsection \<open>Trim and cut\<close>

text \<open>
  Seconds become sample frames by \<^verbatim>\<open>Math.floor(time * audioBuffer.sampleRate)\<close>. The
  rounding of the product decides which frame the floor lands on (the time may itself
  be a rounded quotient, as \<^verbatim>\<open>duration\<close> is).
\<close>

text \<open>\<^verbatim>\<open>audioBuffer.duration\<close>: the quotient of \<^verbatim>\<open>length\<close> and \<^verbatim>\<open>sampleRate\<close>, a number.\<close>

definition duration :: "AudioBuffer \<Rightarrow> real" where
  "duration b = binary64 (real (buf_length b) / real (sampleRate b))"

definition sample_of_time :: "AudioBuffer \<Rightarrow> real \<Rightarrow> int" where
  "sample_of_time ab t = \<lfloor>binary64 (t * real (sampleRate ab))\<rfloor>"

definition trim_write :: "int \<Rightarrow> int \<Rightarrow> real list \<Rightarrow> real list \<Rightarrow> error + real list" where
  "trim_write startSample endSample sourceData targetData =
     typed_set targetData (subarray sourceData startSample endSample) 0"

definition trimAudio :: "store \<Rightarrow> ref \<Rightarrow> real \<Rightarrow> real \<Rightarrow> error + store \<times> ref" where
  "trimAudio h audioBuffer startTime endTime =
     (case deref h audioBuffer of
        Inl e \<Rightarrow> Inl e
      | Inr ab \<Rightarrow>
          let startSample = sample_of_time ab startTime;
              endSample = sample_of_time ab endTime;
              len = endSample - startSample
          in case createBuffer h (numberOfChannels ab) (Num (of_int len)) (sampleRate ab) of
               Inl e \<Rightarrow> Inl e
             | Inr created \<Rightarrow>
                 fill_channels (trim_write startSample endSample) audioBuffer
                   (numberOfChannels ab) created)"

definition cut_write :: "int \<Rightarrow> int \<Rightarrow> real list \<Rightarrow> real list \<Rightarrow> error + real list" where
  "cut_write startSample endSample sourceData targetData =
     (case typed_set targetData (subarray sourceData 0 startSample) 0 of
        Inl e \<Rightarrow> Inl e
      | Inr targetData' \<Rightarrow>
          typed_set targetData'
            (subarray sourceData endSample (int (length sourceData))) startSample)"

definition cutAudio :: "store \<Rightarrow> ref \<Rightarrow> real \<Rightarrow> real \<Rightarrow> error + store \<times> ref" where
  "cutAudio h audioBuffer startTime endTime =
     (case deref h audioBuffer of
        Inl e \<Rightarrow> Inl e
      | Inr ab \<Rightarrow>
          let startSample = sample_of_time ab startTime;
              endSample = sample_of_time ab endTime;
              len = int (buf_length ab) - (endSample - startSample)
          in case createBuffer h (numberOfChannels ab) (Num (of_int len)) (sampleRate ab) of
               Inl e \<Rightarrow> Inl e
             | Inr created \<Rightarrow>
                 fill_channels (cut_write startSample endSample) audioBuffer
                   (numberOfChannels ab) created)"

subsection \<open>The format of a buffer\<close>

text \<open>
  The buffer at \<open>r'\<close> in the store \<open>h'\<close> has the sample rate and the channel count of
  the buffer at \<open>r\<close> in \<open>h\<close>.
\<close>

definition same_format :: "store \<Rightarrow> ref \<Rightarrow> store \<Rightarrow> ref \<Rightarrow> bool" where
  "same_format h r h' r' \<longleftrightarrow>
     r < length h \<and> r' < length h' \<and>
     sampleRate (h' ! r') = sampleRate (h ! r) \<and>
     numberOfChannels (h' ! r') = numberOfChannels (h ! r)"

section \<open>The exporters\<close>

subsection \<open>WAV\<close>

text \<open>
  A \<^verbatim>\<open>Blob\<close> is its bytes and its type. The \<^verbatim>\<open>ArrayBuffer\<close> starts as zeros; a write
  of the \<^verbatim>\<open>DataView\<close> outside it raises \<^verbatim>\<open>RangeError\<close>. \<^verbatim>\<open>setUint16\<close> and
  \<^verbatim>\<open>setUint32\<close> are called with \<^verbatim>\<open>littleEndian = true\<close>; they keep the value modulo
  \<open>2\<^sup>1\<^sup>6\<close> and \<open>2\<^sup>3\<^sup>2\<close>. \<open>and_then\<close> runs the next statement unless one has raised.
\<close>

record Blob =
  blob_bytes :: "byte list"
  blob_type :: string

definition and_then :: "error + 'a \<Rightarrow> ('a \<Rightarrow> error + 'b) \<Rightarrow> error + 'b" where
  "and_then m f = (case m of Inl e \<Rightarrow> Inl e | Inr x \<Rightarrow> f x)"

definition new_ArrayBuffer :: "nat \<Rightarrow> byte list" where
  "new_ArrayBuffer n = replicate n 0"

definition setUint8 :: "byte list \<Rightarrow> nat \<Rightarrow> nat \<Rightarrow> error + byte list" where
  "setUint8 view byteOffset v =
     (if byteOffset + 1 \<le> length view then Inr (view[byteOffset := of_nat v])
      else Inl RangeError)"

definition setUint16 :: "byte list \<Rightarrow> nat \<Rightarrow> nat \<Rightarrow> error + byte list" where
  "setUint16 view byteOffset v =
     (if byteOffset + 2 \<le> length view
      then let w = (of_nat v :: 16 word)
           in Inr (view[byteOffset := ucast w, byteOffset + 1 := ucast (drop_bit 8 w)])
      else Inl RangeError)"

definition setUint32 :: "byte list \<Rightarrow> nat \<Rightarrow> nat \<Rightarrow> error + byte list" where
  "setUint32 view byteOffset v =
     (if byteOffset + 4 \<le> length view
      then let w = (of_nat v :: 32 word)
           in Inr (view[byteOffset := ucast w, byteOffset + 1 := ucast (drop_bit 8 w),
                        byteOffset + 2 := ucast (drop_bit 16 w),
                        byteOffset + 3 := ucast (drop_bit 24 w)])
      else Inl RangeError)"

fun writeString :: "byte list \<Rightarrow> nat \<Rightarrow> string \<Rightarrow> error + byte list" where
  "writeString view offset [] = Inr view"
| "writeString view offset (c # cs) =
     and_then (setUint8 view offset (of_char c)) (\<lambda>view'. writeString view' (Suc offset) cs)"

definition set_from :: "byte list \<Rightarrow> nat \<Rightarrow> byte list \<Rightarrow> error + byte list" where
  "set_from buffer byteOffset source =
     and_then (typed_set (drop byteOffset buffer) source 0)
       (\<lambda>dataView. Inr (take byteOffset buffer @ dataView))"

definition exportAsWAV :: "byte list \<Rightarrow> nat \<Rightarrow> error + Blob" where
  "exportAsWAV pcmData sampleRate' =
     and_then (writeString (new_ArrayBuffer (44 + length pcmData)) 0 ''RIFF'') (\<lambda>view.
     and_then (setUint32 view 4 (36 + length pcmData)) (\<lambda>view.
     and_then (writeString view 8 ''WAVE'') (\<lambda>view.
     and_then (writeString view 12 ''fmt '') (\<lambda>view.
     and_then (setUint32 view 16 16) (\<lambda>view.
     and_then (setUint16 view 20 1) (\<lambda>view.
     and_then (setUint16 view 22 1) (\<lambda>view.
     and_then (setUint32 view 24 sampleRate') (\<lambda>view.
     and_then (setUint32 view 28 sampleRate') (\<lambda>view.
     and_then (setUint16 view 32 1) (\<lambda>view.
     and_then (setUint16 view 34 8) (\<lambda>view.
     and_then (writeString view 36 ''data'') (\<lambda>view.
     and_then (setUint32 view 40 (length pcmData)) (\<lambda>view.
     and_then (set_from view 44 pcmData) (\<lambda>buffer.
     Inr \<lparr>blob_bytes = buffer, blob_type = ''audio/wav''\<rparr>))))))))))))))"

text \<open>
  The header as the specification lays it out: the fields in order, each little-endian.
  \<open>written pre m\<close> is a buffer whose first bytes are \<open>pre\<close> and whose other \<open>m\<close> bytes
  are still zero.
\<close>

definition ascii :: "string \<Rightarrow> byte list" where
  "ascii s = map (\<lambda>c. of_nat (of_char c)) s"

definition u16le :: "nat \<Rightarrow> byte list" where
  "u16le n = [of_nat (n mod 256), of_nat (n div 256 mod 256)]"

definition u32le :: "nat \<Rightarrow> byte list" where
  "u32le n = [of_nat (n mod 256), of_nat (n div 256 mod 256),
              of_nat (n div 65536 mod 256), of_nat (n div 16777216 mod 256)]"

definition wav_header :: "nat \<Rightarrow> nat \<Rightarrow> byte list" where
  "wav_header dataLength rate =
     ascii ''RIFF'' @ u32le (36 + dataLength) @ ascii ''WAVE'' @
     ascii ''fmt '' @ u32le 16 @ u16le 1 @ u16le 1 @ u32le rate @ u32le rate @
     u16le 1 @ u16le 8 @
     ascii ''data'' @ u32le dataLength"

definition written :: "byte list \<Rightarrow> nat \<Rightarrow> byte list" where
  "written pre m = pre @ replicate m 0"

subsection \<open>C array\<close>

text \<open>
  \<^verbatim>\<open>arrayName\<close> is optional and defaults to \<^verbatim>\<open>audioData\<close>. A number in a template or
  under \<^verbatim>\<open>toString\<close> is written in decimal digits (these are counts and rates, far
  below the \<open>10\<^sup>2\<^sup>1\<close> where JavaScript changes notation).
\<close>

record ExportOptions =
  arrayName :: "string option"
  export_sampleRate :: nat

definition digit_char :: "nat \<Rightarrow> char" where
  "digit_char d = ''0123456789'' ! d"

function show_nat :: "nat \<Rightarrow> string" where
  "show_nat n = (if n < 10 then [digit_char n] else show_nat (n div 10) @ [digit_char (n mod 10)])"
  by pat_completeness auto
termination
  by (relation "measure id") auto

declare show_nat.simps [simp del]

definition padStart :: "nat \<Rightarrow> char \<Rightarrow> string \<Rightarrow> string" where
  "padStart targetLength c s = replicate (targetLength - length s) c @ s"

definition padEnd :: "nat \<Rightarrow> char \<Rightarrow> string \<Rightarrow> string" where
  "padEnd targetLength c s = s @ replicate (targetLength - length s) c"

fun join :: "string \<Rightarrow> string list \<Rightarrow> string" where
  "join sep [] = []"
| "join sep [x] = x"
| "join sep (x # y # ys) = x @ sep @ join sep (y # ys)"

text \<open>
  The loop \<^verbatim>\<open>for (let i = 0; i < pcmData.length; i += chunkSize)\<close> with
  \<^verbatim>\<open>chunkSize = 16\<close>; \<^verbatim>\<open>slice\<close> takes its bounds as \<^verbatim>\<open>subarray\<close> does.
\<close>

function chunk_loop :: "byte list \<Rightarrow> nat \<Rightarrow> string list \<Rightarrow> string list" where
  "chunk_loop pcmData i lines =
     (if i < length pcmData
      then let chunk = subarray pcmData (int i) (int (min (i + 16) (length pcmData)));
               values = join '', '' (map (\<lambda>v. padStart 3 CHR '' '' (show_nat (unat v))) chunk)
           in chunk_loop pcmData (i + 16)
                (lines @ [''  '' @ values @ (if i + 16 < length pcmData then '','' else '''')])
      else lines)"
  by pat_completeness auto
termination
  by (relation "measure (\<lambda>(pcmData, i, lines). length pcmData - i)") auto

declare chunk_loop.simps [simp del]

definition exportAsCArray :: "byte list \<Rightarrow> ExportOptions \<Rightarrow> string" where
  "exportAsCArray pcmData options =
     (let name = (case arrayName options of None \<Rightarrow> ''audioData'' | Some n \<Rightarrow> n);
          rate = export_sampleRate options;
          lines = chunk_loop pcmData 0
            [''// PCM Audio Data - '' @ show_nat (length pcmData) @ '' samples'',
             ''// Sample Rate: '' @ show_nat rate @ '' Hz'',
             ''// Format: 8-bit unsigned PCM'',
             ''const uint8_t '' @ name @ ''[] = {'']
      in join [CHR 0x0A]
           (lines @ [''};'',
                     ''const size_t '' @ name @ ''_length = '' @ show_nat (length pcmData) @ '';'']))"

text \<open>
  The text as the specification describes it: the comment header, the declaration, the
  values in groups of 16, each group a line of values padded to width 3 and separated by
  commas, then the closing brace and the length. The padding is a parameter.
\<close>

function group16 :: "'a list \<Rightarrow> 'a list list" where
  "group16 xs = (if xs = [] then [] else take 16 xs # group16 (drop 16 xs))"
  by pat_completeness auto
termination
  by (relation "measure length") auto

declare group16.simps [simp del]

fun rows :: "(string \<Rightarrow> string) \<Rightarrow> byte list list \<Rightarrow> string list" where
  "rows pad [] = []"
| "rows pad (g # gs) =
     (''  '' @ join '', '' (map (\<lambda>v. pad (show_nat (unat v))) g) @
        (if gs = [] then '''' else '','')) # rows pad gs"

definition c_array_text :: "(string \<Rightarrow> string) \<Rightarrow> string \<Rightarrow> nat \<Rightarrow> byte list \<Rightarrow> string" where
  "c_array_text pad name rate bytes =
     join [CHR 0x0A]
       ([''// PCM Audio Data - '' @ show_nat (length bytes) @ '' samples'',
         ''// Sample Rate: '' @ show_nat rate @ '' Hz'',
         ''// Format: 8-bit unsigned PCM'',
         ''const uint8_t '' @ name @ ''[] = {''] @
        rows pad (group16 bytes) @
        [''};'',
         ''const size_t '' @ name @ ''_length = '' @ show_nat (length bytes) @ '';''])"

section \<open>Sample inputs\<close>

text \<open>
  Two seconds of the constant 0.5 and one second of silence at 44100 Hz; short buffers
  with samples outside \<open>[-1, 1]\<close>, with two channels, with the sample \<open>1/2 + 2\<^sup>-\<^sup>2\<^sup>4\<close>
  (the \<^verbatim>\<open>Float32Array\<close> element next to \<open>1/2\<close>), with a silent first channel, and with
  15 frames at 44100 Hz; the options of the C array scenario.
\<close>

definition two_seconds_of_half :: AudioBuffer where
  "two_seconds_of_half =
     \<lparr>numberOfChannels = 1, buf_length = 88200, sampleRate = 44100,
      channels = [replicate 88200 (1 / 2)]\<rparr>"

definition short_ramp :: AudioBuffer where
  "short_ramp = \<lparr>numberOfChannels = 1, buf_length = 4, sampleRate = 8000,
      channels = [[- 5, 5, 1 / 2, 1 / 4]]\<rparr>"

definition one_second_of_silence :: AudioBuffer where
  "one_second_of_silence =
     \<lparr>numberOfChannels = 1, buf_length = 44100, sampleRate = 44100,
      channels = [replicate 44100 0]\<rparr>"

definition stereo_pair :: AudioBuffer where
  "stereo_pair = \<lparr>numberOfChannels = 2, buf_length = 3, sampleRate = 8000,
      channels = [[1 / 4, - 3 / 4, 1 / 2], [0, 1, - 1]]\<rparr>"

definition fine_steps :: AudioBuffer where
  "fine_steps = \<lparr>numberOfChannels = 1, buf_length = 3, sampleRate = 44100,
      channels = [[8388609 / 16777216, 1 / 4, - 1]]\<rparr>"

definition silent_pair :: AudioBuffer where
  "silent_pair = \<lparr>numberOfChannels = 2, buf_length = 2, sampleRate = 8000,
      channels = [[0, 0], [1 / 2, - 1 / 4]]\<rparr>"

definition fifteen_frames :: AudioBuffer where
  "fifteen_frames = \<lparr>numberOfChannels = 1, buf_length = 15, sampleRate = 44100,
      channels = [[1 / 16, 1 / 8, 3 / 16, 1 / 4, 5 / 16, 3 / 8, 7 / 16, 1 / 2,
                   9 / 16, 5 / 8, 11 / 16, 3 / 4, 13 / 16, 7 / 8, 15 / 16]]\<rparr>"

definition three_bytes_as_x :: ExportOptions where
  "three_bytes_as_x = \<lparr>arrayName = Some ''x'', export_sampleRate = 8000\<rparr>"

section \<open>Properties\<close>

subsection \<open>Rounding\<close>

lemma round_half_even_int: "round_half_even (of_int k) = k"
  by (simp add: round_half_even_def)

lemma round_half_even_near: "\<bar>of_int (round_half_even y) - y\<bar> \<le> 1 / 2"
proof -
  have "of_int \<lfloor>y\<rfloor> \<le> y" "y < of_int \<lfloor>y\<rfloor> + 1" by linarith+
  then show ?thesis
    by (auto simp: round_half_even_def Let_def)
qed

lemma round_half_even_le: "y \<le> of_int n \<Longrightarrow> round_half_even y \<le> n"
proof -
  assume le: "y \<le> of_int n"
  show ?thesis
  proof (cases "y = of_int n")
    case True
    then show ?thesis by (simp add: round_half_even_int)
  next
    case False
    with le have "y < of_int n" by simp
    then have "\<lfloor>y\<rfloor> < n" by (simp add: floor_less_iff)
    then show ?thesis by (auto simp: round_half_even_def Let_def)
  qed
qed

lemma round_half_even_ge: "of_int n \<le> y \<Longrightarrow> n \<le> round_half_even y"
proof -
  assume "of_int n \<le> y"
  then have "n \<le> \<lfloor>y\<rfloor>" by (simp add: le_floor_iff)
  then show ?thesis by (auto simp: round_half_even_def Let_def)
qed

lemma round_to_zero: "round_to p emin 0 = 0"
  by (simp add: round_to_def)

lemma round_to_at_exponent:
  assumes "x \<noteq> 0" "2 powr of_int e \<le> \<bar>x\<bar>" "\<bar>x\<bar> < 2 powr of_int (e + 1)"
  shows "round_to p emin x =
           of_int (round_half_even (x / 2 powr of_int (max e emin - p))) *
             2 powr of_int (max e emin - p)"
proof -
  have "\<lfloor>log 2 \<bar>x\<bar>\<rfloor> = e"
    using assms by (simp add: floor_log_eq_powr_iff)
  then show ?thesis
    using assms(1) by (simp add: round_to_def Let_def)
qed

lemma round_to_unfold:
  "x \<noteq> 0 \<Longrightarrow> round_to p emin x =
     of_int (round_half_even (x / 2 powr of_int (ulp_exp emin x - p))) *
       2 powr of_int (ulp_exp emin x - p)"
  by (simp add: round_to_def ulp_exp_def Let_def)

lemma ulp_exp_le:
  assumes "x \<noteq> 0" "\<bar>x\<bar> < 2 powr of_int k" "emin < k"
  shows "ulp_exp emin x < k"
proof -
  have "log 2 \<bar>x\<bar> < of_int k"
    using assms(1,2) by (simp add: log_less_iff)
  then have "\<lfloor>log 2 \<bar>x\<bar>\<rfloor> < k" by (simp add: floor_less_iff)
  with assms(3) show ?thesis by (simp add: ulp_exp_def)
qed

lemma ulp_exp_powr_le:
  assumes "x \<noteq> 0" "emin \<le> \<lfloor>log 2 \<bar>x\<bar>\<rfloor>"
  shows "2 powr of_int (ulp_exp emin x) \<le> \<bar>x\<bar>"
proof -
  have "ulp_exp emin x = \<lfloor>log 2 \<bar>x\<bar>\<rfloor>" using assms(2) by (simp add: ulp_exp_def)
  moreover have "of_int \<lfloor>log 2 \<bar>x\<bar>\<rfloor> \<le> log 2 \<bar>x\<bar>" by simp
  ultimately have "of_int (ulp_exp emin x) \<le> log 2 \<bar>x\<bar>" by simp
  then show ?thesis using assms(1) by (simp add: le_log_iff)
qed

lemma below_next_power:
  assumes "x \<noteq> 0"
  shows "\<bar>x\<bar> < 2 powr of_int (ulp_exp emin x + 1)"
proof -
  have "log 2 \<bar>x\<bar> < of_int (\<lfloor>log 2 \<bar>x\<bar>\<rfloor> + 1)" by linarith
  also have "\<dots> \<le> of_int (ulp_exp emin x + 1)" by (simp add: ulp_exp_def)
  finally show ?thesis using assms by (simp add: log_less_iff)
qed

lemma powr_int_diff:
  "(2::real) powr of_int a / 2 powr of_int b = 2 powr of_int (a - b)"
  by (simp add: powr_diff)

lemma powr_nonneg_int:
  assumes "0 \<le> d"
  shows "(2::real) powr of_int d = of_int (2 ^ nat d)"
proof -
  have "(2::real) powr of_int d = 2 powr real (nat d)" using assms by simp
  also have "\<dots> = 2 ^ nat d" by (simp add: powr_realpow)
  finally show ?thesis by simp
qed

lemma powr_neg_int:
  assumes "0 \<le> p - e"
  shows "(2::real) powr of_int (e - p) = 1 / of_int (2 ^ nat (p - e))"
proof -
  have "(of_int (e - p) :: real) = - of_int (p - e)" by simp
  then have "(2::real) powr of_int (e - p) = 1 / 2 powr of_int (p - e)"
    by (simp only: powr_minus_divide)
  then show ?thesis by (simp only: powr_nonneg_int [OF assms])
qed

lemma round_to_exact:
  assumes m: "\<bar>m\<bar> < 2 ^ nat (p + 1)" and p: "0 \<le> p" and k: "emin - p \<le> k"
  shows "round_to p emin (of_int m * 2 powr of_int k) = of_int m * 2 powr of_int k"
proof (cases "m = 0")
  case True
  then show ?thesis by (simp add: round_to_zero)
next
  case False
  let ?x = "of_int m * 2 powr of_int k :: real"
  let ?E = "ulp_exp emin ?x"
  have x0: "?x \<noteq> 0" using False by simp
  have "\<bar>of_int m :: real\<bar> < of_int (2 ^ nat (p + 1))"
    using m by (metis of_int_abs of_int_less_iff)
  also have "\<dots> = 2 powr of_int (p + 1)"
    using p by (subst powr_nonneg_int) simp_all
  finally have "\<bar>?x\<bar> < 2 powr of_int (p + 1) * 2 powr of_int k"
    by (simp add: abs_mult)
  also have "\<dots> = 2 powr of_int (k + p + 1)"
    by (simp add: powr_add [symmetric] algebra_simps)
  finally have "?E < k + p + 1"
    using x0 k by (intro ulp_exp_le) simp_all
  then have d: "0 \<le> k - (?E - p)" by simp
  have "?x / 2 powr of_int (?E - p) = of_int m * (2 powr of_int k / 2 powr of_int (?E - p))"
    by simp
  also have "\<dots> = of_int m * 2 powr of_int (k - (?E - p))"
    by (simp only: powr_int_diff)
  also have "\<dots> = of_int (m * 2 ^ nat (k - (?E - p)))"
    by (simp only: powr_nonneg_int [OF d]) simp
  finally have q: "?x / 2 powr of_int (?E - p) = of_int (m * 2 ^ nat (k - (?E - p)))" .
  have "round_to p emin ?x =
          of_int (m * 2 ^ nat (k - (?E - p))) * 2 powr of_int (?E - p)"
    by (simp only: round_to_unfold [OF x0] q round_half_even_int)
  also have "\<dots> = of_int m * (2 powr of_int (k - (?E - p)) * 2 powr of_int (?E - p))"
    by (simp only: powr_nonneg_int [OF d]) simp
  also have "2 powr of_int (k - (?E - p)) * 2 powr of_int (?E - p) = (2::real) powr of_int k"
    by (simp add: powr_add [symmetric])
  finally show ?thesis .
qed

lemma round_to_le_int:
  assumes "x \<le> of_int j" "\<bar>x\<bar> < 2 powr of_int (p + 1)" "emin \<le> p"
  shows "round_to p emin x \<le> of_int j"
proof (cases "x = 0")
  case True
  with assms(1) show ?thesis by (simp add: round_to_zero)
next
  case False
  let ?E = "ulp_exp emin x"
  have "?E < p + 1" using False assms(2,3) by (intro ulp_exp_le) simp_all
  then have d: "0 \<le> p - ?E" by simp
  have u: "(2::real) powr of_int (?E - p) = 1 / of_int (2 ^ nat (p - ?E))"
    by (rule powr_neg_int [OF d])
  have "x / 2 powr of_int (?E - p) = x * of_int (2 ^ nat (p - ?E))"
    by (simp only: u) simp
  also have "\<dots> \<le> of_int j * of_int (2 ^ nat (p - ?E))"
    using assms(1) by (intro mult_right_mono) simp_all
  finally have "x / 2 powr of_int (?E - p) \<le> of_int (j * 2 ^ nat (p - ?E))" by simp
  then have "round_half_even (x / 2 powr of_int (?E - p)) \<le> j * 2 ^ nat (p - ?E)"
    by (rule round_half_even_le)
  then have "(of_int (round_half_even (x / 2 powr of_int (?E - p))) :: real) \<le>
               of_int (j * 2 ^ nat (p - ?E))"
    by (simp only: of_int_le_iff)
  then have "of_int (round_half_even (x / 2 powr of_int (?E - p))) * (2::real) powr of_int (?E - p) \<le>
               of_int (j * 2 ^ nat (p - ?E)) * 2 powr of_int (?E - p)"
    by (intro mult_right_mono) simp_all
  also have "\<dots> = of_int j"
    by (simp only: u) simp
  finally show ?thesis by (simp only: round_to_unfold [OF False])
qed

lemma round_to_ge_int:
  assumes "of_int j \<le> x" "\<bar>x\<bar> < 2 powr of_int (p + 1)" "emin \<le> p"
  shows "of_int j \<le> round_to p emin x"
proof (cases "x = 0")
  case True
  with assms(1) show ?thesis by (simp add: round_to_zero)
next
  case False
  let ?E = "ulp_exp emin x"
  have "?E < p + 1" using False assms(2,3) by (intro ulp_exp_le) simp_all
  then have d: "0 \<le> p - ?E" by simp
  have u: "(2::real) powr of_int (?E - p) = 1 / of_int (2 ^ nat (p - ?E))"
    by (rule powr_neg_int [OF d])
  have "of_int j * of_int (2 ^ nat (p - ?E)) \<le> x * of_int (2 ^ nat (p - ?E))"
    using assms(1) by (intro mult_right_mono) simp_all
  also have "\<dots> = x / 2 powr of_int (?E - p)"
    by (simp only: u) simp
  finally have "of_int (j * 2 ^ nat (p - ?E)) \<le> x / 2 powr of_int (?E - p)" by simp
  then have "j * 2 ^ nat (p - ?E) \<le> round_half_even (x / 2 powr of_int (?E - p))"
    by (rule round_half_even_ge)
  then have "(of_int (j * 2 ^ nat (p - ?E)) :: real) \<le>
               of_int (round_half_even (x / 2 powr of_int (?E - p)))"
    by (simp only: of_int_le_iff)
  then have "of_int (j * 2 ^ nat (p - ?E)) * (2::real) powr of_int (?E - p) \<le>
      of_int (round_half_even (x / 2 powr of_int (?E - p))) * 2 powr of_int (?E - p)"
    by (intro mult_right_mono) simp_all
  moreover have "of_int (j * 2 ^ nat (p - ?E)) * (2::real) powr of_int (?E - p) = of_int j"
    by (simp only: u) simp
  ultimately show ?thesis by (simp only: round_to_unfold [OF False])
qed

lemma round_to_near:
  assumes "x \<noteq> 0"
  shows "\<bar>round_to p emin x - x\<bar> \<le> 2 powr of_int (ulp_exp emin x - p) / 2"
proof -
  let ?u = "(2::real) powr of_int (ulp_exp emin x - p)"
  have u: "0 < ?u" by simp
  have "round_to p emin x - x = (of_int (round_half_even (x / ?u)) - x / ?u) * ?u"
    using u by (simp add: round_to_unfold [OF assms] algebra_simps)
  then have "\<bar>round_to p emin x - x\<bar> = \<bar>of_int (round_half_even (x / ?u)) - x / ?u\<bar> * ?u"
    by (simp add: abs_mult)
  also have "\<dots> \<le> 1 / 2 * ?u"
    using round_half_even_near [of "x / ?u"] by (intro mult_right_mono) simp_all
  finally show ?thesis by simp
qed

lemma round_to_near_below:
  assumes "\<bar>x\<bar> < 2 powr of_int k" "emin < k"
  shows "\<bar>round_to p emin x - x\<bar> \<le> 2 powr of_int (k - 1 - p) / 2"
proof (cases "x = 0")
  case True
  then show ?thesis by (simp add: round_to_zero)
next
  case False
  have "ulp_exp emin x < k" using False assms by (intro ulp_exp_le)
  then have "(2::real) powr of_int (ulp_exp emin x - p) \<le> 2 powr of_int (k - 1 - p)"
    by (intro powr_mono) simp_all
  with round_to_near [OF False, of p emin] show ?thesis by linarith
qed

lemma ulp_exp_ge: "emin \<le> ulp_exp emin x"
  by (simp add: ulp_exp_def)

lemma binary64_int:
  assumes "\<bar>m\<bar> < 2 ^ 53"
  shows "binary64 (of_int m) = of_int m"
  using round_to_exact [of m 52 "- 1022" 0] assms by (simp add: binary64_def)

lemma binary64_dyadic:
  assumes "\<bar>m\<bar> < 2 ^ 53" "n \<le> 1074"
  shows "binary64 (of_int m / 2 ^ n) = of_int m / 2 ^ n"
proof -
  have "(2::real) powr of_int (- int n) = 1 / 2 ^ n"
    by (simp add: powr_minus_divide powr_realpow)
  then show ?thesis
    using round_to_exact [of m 52 "- 1022" "- int n"] assms by (simp add: binary64_def)
qed

lemma float32_dyadic:
  assumes "\<bar>m\<bar> < 2 ^ 24" "n \<le> 149"
  shows "float32 (of_int m / 2 ^ n) = of_int m / 2 ^ n"
proof -
  have "(2::real) powr of_int (- int n) = 1 / 2 ^ n"
    by (simp add: powr_minus_divide powr_realpow)
  then show ?thesis
    using round_to_exact [of m 23 "- 126" "- int n"] assms by (simp add: float32_def)
qed

lemma float32_is_binary64:
  assumes "float32 x = x"
  shows "binary64 x = x"
proof (cases "x = 0")
  case True
  then show ?thesis by (simp add: binary64_def round_to_zero)
next
  case False
  let ?E = "ulp_exp (- 126) x"
  let ?u = "(2::real) powr of_int (?E - 23)"
  let ?M = "round_half_even (x / ?u)"
  have x: "x = of_int ?M * ?u"
    using assms round_to_unfold [OF False, of 23 "- 126"] by (simp add: float32_def)
  have u24: "?u * 2 ^ 24 = 2 powr of_int (?E + 1)"
  proof -
    have "(of_int (?E + 1) :: real) = of_int (?E - 23) + 24"
      by simp
    then have "(2::real) powr of_int (?E + 1) = 2 powr (of_int (?E - 23) + 24)"
      by (simp only:)
    also have "\<dots> = 2 powr of_int (?E - 23) * 2 powr 24"
      by (simp only: powr_add)
    also have "(2::real) powr 24 = 2 ^ 24"
      by simp
    finally show ?thesis by simp
  qed
  have "\<bar>x\<bar> < ?u * 2 ^ 24"
    using below_next_power [OF False, of "- 126"] by (simp only: u24)
  then have "\<bar>x / ?u\<bar> < 2 ^ 24"
    by (simp add: abs_divide pos_divide_less_eq mult.commute)
  then have "x / ?u < 16777216" "- 16777216 < x / ?u"
    unfolding abs_less_iff by simp_all
  then have "x / ?u \<le> 16777216" "- 16777216 \<le> x / ?u"
    by simp_all
  then have hi: "x / ?u \<le> of_int (2 ^ 24)" and lo: "of_int (- (2 ^ 24)) \<le> x / ?u"
    by simp_all
  have "?M \<le> 2 ^ 24" "- (2 ^ 24) \<le> ?M"
    using round_half_even_le [OF hi] round_half_even_ge [OF lo] by simp_all
  then have M: "\<bar>?M\<bar> < 2 ^ nat (52 + 1)" by simp
  have k: "- 1022 - 52 \<le> ?E - 23"
    using ulp_exp_ge [of "- 126" x] by simp
  have "binary64 (of_int ?M * ?u) = of_int ?M * ?u"
    unfolding binary64_def by (rule round_to_exact [OF M _ k]) simp
  with x show ?thesis by simp
qed

lemma round_half_even_eq:
  assumes "\<bar>y - of_int m\<bar> < 1 / 2"
  shows "round_half_even y = m"
proof -
  have a: "of_int m - 1 / 2 < y" "y < of_int m + 1 / 2"
    using assms by linarith+
  have "of_int (m - 1) \<le> y" "y < of_int (m + 1)"
    using a by simp_all
  then have "m - 1 \<le> \<lfloor>y\<rfloor>" "\<lfloor>y\<rfloor> < m + 1"
    by (simp_all only: le_floor_iff floor_less_iff)
  then consider "\<lfloor>y\<rfloor> = m" | "\<lfloor>y\<rfloor> = m - 1"
    by linarith
  then show ?thesis
  proof cases
    case 1
    then show ?thesis using a by (simp add: round_half_even_def Let_def)
  next
    case 2
    then show ?thesis using a by (simp add: round_half_even_def Let_def)
  qed
qed

lemma round_half_even_minus: "round_half_even (- y) = - round_half_even y"
proof (cases "y = of_int \<lfloor>y\<rfloor>")
  case True
  then obtain k where "y = of_int k" ..
  then show ?thesis
    using round_half_even_int [of k] round_half_even_int [of "- k"] by simp
next
  case False
  define f where "f = \<lfloor>y\<rfloor>"
  define d where "d = y - of_int f"
  have b: "of_int f \<le> y" "y < of_int f + 1" unfolding f_def by linarith+
  have "y \<noteq> of_int f" using False by (simp add: f_def)
  with b have d: "0 < d" "d < 1" unfolding d_def by linarith+
  have "of_int (- f - 1) \<le> - y" "- y < of_int (- f - 1) + 1"
    using d by (simp_all add: d_def)
  then have f': "\<lfloor>- y\<rfloor> = - f - 1" by (rule floor_unique)
  have d': "- y - of_int (- f - 1) = 1 - d" by (simp add: d_def)
  have ev: "even (- f - 1) \<longleftrightarrow> odd f" by simp
  have l: "round_half_even y =
             (if d < 1 / 2 then f else if 1 / 2 < d then f + 1 else if even f then f else f + 1)"
    by (simp add: round_half_even_def Let_def f_def d_def)
  have r: "round_half_even (- y) =
             (if 1 - d < 1 / 2 then - f - 1 else if 1 / 2 < 1 - d then - f
              else if odd f then - f - 1 else - f)"
    unfolding round_half_even_def Let_def f' d' ev by simp
  consider "d < 1 / 2" | "1 / 2 < d" | "d = 1 / 2" by linarith
  then show ?thesis
  proof cases
    case 1
    then show ?thesis unfolding l r by simp
  next
    case 2
    then show ?thesis unfolding l r by simp
  next
    case 3
    then show ?thesis unfolding l r by simp
  qed
qed

lemma round_to_minus: "round_to p emin (- x) = - round_to p emin x"
  by (simp add: round_to_def Let_def round_half_even_minus)

lemma round_to_nonneg:
  assumes "0 \<le> x"
  shows "0 \<le> round_to p emin x"
proof (cases "x = 0")
  case True
  then show ?thesis by (simp add: round_to_zero)
next
  case False
  let ?u = "(2::real) powr of_int (ulp_exp emin x - p)"
  have "of_int 0 \<le> x / ?u" using assms by simp
  then have "0 \<le> round_half_even (x / ?u)" by (rule round_half_even_ge)
  then show ?thesis by (simp add: round_to_unfold [OF False])
qed

lemma round_to_eval:
  assumes "2 powr of_int e \<le> \<bar>x\<bar>" "\<bar>x\<bar> < 2 powr of_int (e + 1)" "emin \<le> e"
    and "\<bar>x / 2 powr of_int (e - p) - of_int m\<bar> < 1 / 2"
  shows "round_to p emin x = of_int m * 2 powr of_int (e - p)"
proof -
  have "0 < (2::real) powr of_int e" by simp
  with assms(1) have "0 < \<bar>x\<bar>" by linarith
  then have "x \<noteq> 0" by simp
  then show ?thesis
    using round_to_at_exponent [OF _ assms(1,2), of p emin] assms(3)
      round_half_even_eq [OF assms(4)]
    by (simp add: max_absorb1)
qed

subsection \<open>The two formats\<close>

lemma binary64_zero: "binary64 0 = 0"
  by (simp add: binary64_def round_to_zero)

lemma float32_zero: "float32 0 = 0"
  by (simp add: float32_def round_to_zero)

lemma binary64_minus: "binary64 (- x) = - binary64 x"
  by (simp add: binary64_def round_to_minus)

lemma float32_minus: "float32 (- x) = - float32 x"
  by (simp add: float32_def round_to_minus)

lemma binary64_nonneg: "0 \<le> x \<Longrightarrow> 0 \<le> binary64 x"
  by (simp add: binary64_def round_to_nonneg)

lemma binary64_le_int:
  assumes "x \<le> of_int j" "\<bar>x\<bar> < 2 ^ 53"
  shows "binary64 x \<le> of_int j"
  unfolding binary64_def using assms by (intro round_to_le_int) simp_all

lemma binary64_ge_int:
  assumes "of_int j \<le> x" "\<bar>x\<bar> < 2 ^ 53"
  shows "of_int j \<le> binary64 x"
  unfolding binary64_def using assms by (intro round_to_ge_int) simp_all

lemma float32_le_int:
  assumes "x \<le> of_int j" "\<bar>x\<bar> < 2 ^ 24"
  shows "float32 x \<le> of_int j"
  unfolding float32_def using assms by (intro round_to_le_int) simp_all

lemma float32_ge_int:
  assumes "of_int j \<le> x" "\<bar>x\<bar> < 2 ^ 24"
  shows "of_int j \<le> float32 x"
  unfolding float32_def using assms by (intro round_to_ge_int) simp_all

lemma binary64_near_4:
  assumes "\<bar>x\<bar> < 4"
  shows "\<bar>binary64 x - x\<bar> \<le> 1 / 2 ^ 52"
proof -
  have "\<bar>x\<bar> < 2 powr of_int 2" using assms by simp
  then have "\<bar>round_to 52 (- 1022) x - x\<bar> \<le> 2 powr of_int (2 - 1 - 52) / 2"
    by (rule round_to_near_below) simp
  moreover have "(2::real) powr of_int (2 - 1 - 52) = 1 / 2 ^ 51"
    using powr_neg_int [of 52 1] by simp
  ultimately show ?thesis by (simp add: binary64_def)
qed

lemma binary64_near_256:
  assumes "\<bar>x\<bar> < 256"
  shows "\<bar>binary64 x - x\<bar> \<le> 1 / 2 ^ 45"
proof -
  have "\<bar>x\<bar> < 2 powr of_int 8" using assms by simp
  then have "\<bar>round_to 52 (- 1022) x - x\<bar> \<le> 2 powr of_int (8 - 1 - 52) / 2"
    by (rule round_to_near_below) simp
  moreover have "(2::real) powr of_int (8 - 1 - 52) = 1 / 2 ^ 45"
    using powr_neg_int [of 52 7] by simp
  ultimately show ?thesis by (simp add: binary64_def)
qed

lemma binary64_nat:
  assumes "n < 2 ^ 53"
  shows "binary64 (real n) = real n"
  using binary64_int [of "int n"] assms by simp

lemma binary64_numeral:
  assumes "(numeral k :: int) < 2 ^ 53"
  shows "binary64 (numeral k) = numeral k"
  using binary64_int [of "numeral k"] assms by simp

lemma binary64_one: "binary64 1 = 1"
  using binary64_int [of 1] by simp

lemma binary64_over_2:
  assumes "(numeral k :: int) < 2 ^ 53"
  shows "binary64 (numeral k / 2) = numeral k / 2"
  using binary64_dyadic [of "numeral k" 1] assms by simp

lemma binary64_over_4:
  assumes "(numeral k :: int) < 2 ^ 53"
  shows "binary64 (numeral k / 4) = numeral k / 4"
  using binary64_dyadic [of "numeral k" 2] assms by simp

lemma binary64_over_8:
  assumes "(numeral k :: int) < 2 ^ 53"
  shows "binary64 (numeral k / 8) = numeral k / 8"
  using binary64_dyadic [of "numeral k" 3] assms by simp

lemma binary64_over_16:
  assumes "(numeral k :: int) < 2 ^ 53"
  shows "binary64 (numeral k / 16) = numeral k / 16"
  using binary64_dyadic [of "numeral k" 4] assms by simp

lemma binary64_one_over:
  "binary64 (1 / 2) = 1 / 2" "binary64 (1 / 4) = 1 / 4" "binary64 (1 / 8) = 1 / 8"
  "binary64 (1 / 16) = 1 / 16"
  using binary64_dyadic [of 1 1] binary64_dyadic [of 1 2] binary64_dyadic [of 1 3]
    binary64_dyadic [of 1 4]
  by simp_all

lemmas binary64_exact =
  binary64_zero binary64_one binary64_minus binary64_numeral binary64_over_2 binary64_over_4
  binary64_over_8 binary64_over_16 binary64_one_over

lemma is_float32_dyadic:
  assumes "\<bar>m\<bar> < 2 ^ 24" "n \<le> 149"
  shows "is_float32 (of_int m / 2 ^ n)"
proof -
  have "(1::real) \<le> 2 ^ n" by simp
  then have "\<bar>of_int m :: real\<bar> / 2 ^ n \<le> \<bar>of_int m\<bar> / 1"
    by (intro divide_left_mono) simp_all
  then have "\<bar>of_int m / 2 ^ n :: real\<bar> \<le> \<bar>of_int m\<bar>"
    by (simp add: abs_divide)
  also have "\<dots> < 2 ^ 24"
    using assms(1) by (metis of_int_abs of_int_less_iff of_int_numeral of_int_power)
  also have "(2::real) ^ 24 < 2 ^ 128" by simp
  finally show ?thesis
    using float32_dyadic [OF assms] by (simp add: is_float32_def)
qed

lemma is_float32_zero: "is_float32 0"
  using is_float32_dyadic [of 0 0] by simp

lemma is_float32_one: "is_float32 1"
  using is_float32_dyadic [of 1 0] by simp

lemma is_float32_minus: "is_float32 (- x) = is_float32 x"
  by (auto simp: is_float32_def float32_minus)

lemma is_float32_numeral:
  assumes "(numeral k :: int) < 2 ^ 24"
  shows "is_float32 (numeral k)"
  using is_float32_dyadic [of "numeral k" 0] assms by simp

lemma is_float32_one_over:
  "is_float32 (1 / 2)" "is_float32 (1 / 4)" "is_float32 (1 / 8)" "is_float32 (1 / 16)"
  using is_float32_dyadic [of 1 1] is_float32_dyadic [of 1 2] is_float32_dyadic [of 1 3]
    is_float32_dyadic [of 1 4]
  by simp_all

lemma is_float32_over_4:
  assumes "(numeral k :: int) < 2 ^ 24"
  shows "is_float32 (numeral k / 4)"
  using is_float32_dyadic [of "numeral k" 2] assms by simp

lemma is_float32_over_8:
  assumes "(numeral k :: int) < 2 ^ 24"
  shows "is_float32 (numeral k / 8)"
  using is_float32_dyadic [of "numeral k" 3] assms by simp

lemma is_float32_over_16:
  assumes "(numeral k :: int) < 2 ^ 24"
  shows "is_float32 (numeral k / 16)"
  using is_float32_dyadic [of "numeral k" 4] assms by simp

lemmas is_float32_exact =
  is_float32_zero is_float32_one is_float32_minus is_float32_numeral is_float32_one_over
  is_float32_over_4 is_float32_over_8 is_float32_over_16

lemma is_float32D: "is_float32 x \<Longrightarrow> float32 x = x"
  by (simp add: is_float32_def)

lemma is_float32_binary64: "is_float32 x \<Longrightarrow> binary64 x = x"
  by (simp add: is_float32_def float32_is_binary64)

lemma to_number_finite: "\<bar>x\<bar> < 2 ^ 1024 - 2 ^ 970 \<Longrightarrow> to_number x = Num (binary64 x)"
  by (simp add: to_number_def)

lemma binary64_at_exponent:
  assumes "0 < x" "2 powr of_int e \<le> x" "x < 2 powr of_int (e + 1)" "- 1022 \<le> e"
  shows "binary64 x =
           of_int (round_half_even (x / 2 powr of_int (e - 52))) * 2 powr of_int (e - 52)"
  using round_to_at_exponent [of x e 52 "- 1022"] assms
  by (simp add: binary64_def max_absorb1)

lemma float32_at_exponent:
  assumes "0 < x" "2 powr of_int e \<le> x" "x < 2 powr of_int (e + 1)" "- 126 \<le> e"
  shows "float32 x =
           of_int (round_half_even (x / 2 powr of_int (e - 23))) * 2 powr of_int (e - 23)"
  using round_to_at_exponent [of x e 23 "- 126"] assms
  by (simp add: float32_def max_absorb1)

lemma float32_unit_interval:
  assumes "- 1 \<le> x" "x \<le> 1"
  shows "- 1 \<le> float32 x \<and> float32 x \<le> 1"
proof -
  have "\<bar>x\<bar> < 2 ^ 24" using assms by simp
  then show ?thesis
    using float32_ge_int [of "- 1" x] float32_le_int [of x 1] assms by simp
qed

lemma binary64_eval:
  assumes "0 < x" "2 powr of_int e \<le> x" "x < 2 powr of_int (e + 1)" "- 1022 \<le> e"
    and "round_half_even (x / 2 powr of_int (e - 52)) = m"
    and "of_int m * 2 powr of_int (e - 52) = y"
  shows "binary64 x = y"
  using binary64_at_exponent [OF assms(1-4)] assms(5,6) by simp

lemma float32_eval:
  assumes "0 < x" "2 powr of_int e \<le> x" "x < 2 powr of_int (e + 1)" "- 126 \<le> e"
    and "round_half_even (x / 2 powr of_int (e - 23)) = m"
    and "of_int m * 2 powr of_int (e - 23) = y"
  shows "float32 x = y"
  using float32_at_exponent [OF assms(1-4)] assms(5,6) by simp

subsection \<open>Loops and helpers\<close>

lemma fill_loop_eq:
  "i \<le> n \<Longrightarrow> n \<le> length arr \<Longrightarrow>
     fill_loop i n f arr = take i arr @ map f [i..<n] @ drop n arr"
proof (induction i n f arr rule: fill_loop.induct)
  case (1 i n f arr)
  show ?case
  proof (cases "i < n")
    case True
    have "fill_loop i n f arr = fill_loop (Suc i) n f (arr[i := f i])"
      using True by (subst fill_loop.simps) simp
    also have "\<dots> = take (Suc i) (arr[i := f i]) @ map f [Suc i..<n] @ drop n (arr[i := f i])"
      using "1.IH" [OF True] True "1.prems" by simp
    also have "take (Suc i) (arr[i := f i]) = take i arr @ [f i]"
      using True "1.prems" by (simp add: take_Suc_conv_app_nth)
    also have "drop n (arr[i := f i]) = drop n arr"
      using True by simp
    finally show ?thesis
      using True by (simp add: upt_conv_Cons)
  next
    case False
    with "1.prems" have "i = n" by simp
    then show ?thesis
      by (subst fill_loop.simps) simp
  qed
qed

lemma fill_loop_all:
  "length arr = n \<Longrightarrow> fill_loop 0 n f arr = map f [0..<n]"
  by (simp add: fill_loop_eq)

lemma clamp1_bounds: "- 1 \<le> clamp1 x \<and> clamp1 x \<le> 1"
  by (simp add: clamp1_def)

lemma convertToPCM_eq:
  assumes "wf_buffer b"
  shows "convertToPCM b opts =
           Inr (map (pcm_byte (channels b ! 0) (sampleRate b) (pcm_sampleRate opts))
                  [0..<nat \<lfloor>real (buf_length b * pcm_sampleRate opts) / real (sampleRate b)\<rfloor>])"
proof -
  have ch: "getChannelData b 0 = Inr (channels b ! 0)"
    using assms by (simp add: wf_buffer_def getChannelData_def)
  have len: "length (channels b ! 0) = buf_length b"
    using assms by (simp add: wf_buffer_def list_all_length)
  have nonneg: "\<not> real (buf_length b * pcm_sampleRate opts) / real (sampleRate b) < 0"
    by (simp add: not_less)
  have rate: "sampleRate b \<noteq> 0"
    using assms by (simp add: wf_buffer_def)
  show ?thesis
    using nonneg rate
    by (simp add: convertToPCM_def ch len new_Uint8Array_def Let_def fill_loop_all
        del: of_nat_mult)
qed

subsection \<open>The PCM encoder\<close>

lemma pcm_value_bounds:
  assumes "- 1 \<le> s" "s \<le> (1::real)"
  shows "0 \<le> \<lfloor>binary64 (binary64 (s + 1) * (255 / 2)) + 1 / 2\<rfloor> \<and>
         \<lfloor>binary64 (binary64 (s + 1) * (255 / 2)) + 1 / 2\<rfloor> \<le> 255"
proof -
  let ?a = "binary64 (s + 1)"
  let ?b = "binary64 (?a * (255 / 2))"
  have s: "\<bar>s + 1\<bar> < 2 ^ 53" using assms by simp
  have a: "0 \<le> ?a" "?a \<le> 2"
    using binary64_ge_int [of 0 "s + 1"] binary64_le_int [of "s + 1" 2] assms s by simp_all
  then have p: "0 \<le> ?a * (255 / 2)" "?a * (255 / 2) \<le> 255" "\<bar>?a * (255 / 2)\<bar> < 2 ^ 53"
    by simp_all
  have b: "0 \<le> ?b" "?b \<le> 255"
    using binary64_ge_int [of 0 "?a * (255 / 2)"] binary64_le_int [of "?a * (255 / 2)" 255] p
    by simp_all
  have "0 \<le> \<lfloor>?b + 1 / 2\<rfloor>" using b(1) by simp
  moreover have "\<lfloor>?b + 1 / 2\<rfloor> < 256" using b(2) by (simp add: floor_less_iff)
  ultimately show ?thesis by simp
qed

lemma uint_byte_of_int:
  "0 \<le> k \<Longrightarrow> k \<le> 255 \<Longrightarrow> uint (of_int k :: 8 word) = k"
  by (simp add: uint_word_of_int take_bit_int_eq_self)

lemma pcm_byte_uint:
  "uint (pcm_byte xs src rate i) =
     \<lfloor>binary64 (binary64 (pcm_sample xs src rate i + 1) * (255 / 2)) + 1 / 2\<rfloor>"
  using pcm_value_bounds [of "pcm_sample xs src rate i"] clamp1_bounds [of
      "interpolate xs (binary64 (binary64 (real (i * src)) / real rate))"]
  by (simp add: pcm_byte_def pcm_sample_def math_round_def uint_byte_of_int del: of_nat_mult)

lemma position_nonneg: "0 \<le> binary64 (binary64 (real n) / real rate)"
  by (intro binary64_nonneg divide_nonneg_nonneg) simp_all

lemma interpolate_explicit:
  assumes "0 \<le> pos"
  shows "interpolate s pos =
           (if nat \<lfloor>pos\<rfloor> + 1 < length s
            then binary64
                   (binary64 (s ! nat \<lfloor>pos\<rfloor> * binary64 (1 - binary64 (pos - real (nat \<lfloor>pos\<rfloor>)))) +
                    binary64 (s ! (nat \<lfloor>pos\<rfloor> + 1) * binary64 (pos - real (nat \<lfloor>pos\<rfloor>))))
            else if nat \<lfloor>pos\<rfloor> < length s then s ! nat \<lfloor>pos\<rfloor> else 0)"
proof -
  have f: "0 \<le> \<lfloor>pos\<rfloor>" using assms by simp
  then have r: "real (nat \<lfloor>pos\<rfloor>) = of_int \<lfloor>pos\<rfloor>" by simp
  have n: "nat (\<lfloor>pos\<rfloor> + 1) = nat \<lfloor>pos\<rfloor> + 1" using f by linarith
  have c1: "\<lfloor>pos\<rfloor> + 1 < int (length s) \<longleftrightarrow> nat \<lfloor>pos\<rfloor> + 1 < length s"
    using f by linarith
  have c2: "\<lfloor>pos\<rfloor> < int (length s) \<longleftrightarrow> nat \<lfloor>pos\<rfloor> < length s"
    using f by linarith
  show ?thesis
    unfolding interpolate_def Let_def typed_get_def or_zero_def r n c1 c2
    using f by simp
qed

lemma abs_leD: "\<bar>x - y\<bar> \<le> e \<Longrightarrow> y - e \<le> x \<and> x \<le> y + (e::real)"
  by linarith

lemma abs_leI: "y - e \<le> x \<Longrightarrow> x \<le> y + e \<Longrightarrow> \<bar>x - y\<bar> \<le> (e::real)"
  by linarith

lemma interpolate_half_near:
  assumes "0 \<le> pos" "\<lfloor>pos\<rfloor> < int n"
  shows "\<bar>interpolate (replicate n (1 / 2)) pos - 1 / 2\<bar> \<le> 1 / 2 ^ 50"
proof -
  let ?k = "nat \<lfloor>pos\<rfloor>"
  have k: "?k < n" using assms by linarith
  show ?thesis
  proof (cases "?k + 1 < n")
    case False
    then show ?thesis using k by (simp add: interpolate_explicit [OF assms(1)])
  next
    case True
    define f where "f = binary64 (pos - real ?k)"
    define g where "g = binary64 (1 - f)"
    define a where "a = binary64 (1 / 2 * g)"
    define b where "b = binary64 (1 / 2 * f)"
    have v: "interpolate (replicate n (1 / 2)) pos = binary64 (a + b)"
      using True k by (simp add: interpolate_explicit [OF assms(1)] f_def g_def a_def b_def)
    have "0 \<le> \<lfloor>pos\<rfloor>" using assms(1) by simp
    then have "real ?k = of_int \<lfloor>pos\<rfloor>" by simp
    then have d: "0 \<le> pos - real ?k" "pos - real ?k \<le> 1" by linarith+
    then have "\<bar>pos - real ?k\<bar> < 2 ^ 53" by simp
    then have f: "0 \<le> f" "f \<le> 1"
      using binary64_ge_int [of 0 "pos - real ?k"] binary64_le_int [of "pos - real ?k" 1] d
      by (simp_all add: f_def)
    then have "\<bar>1 - f\<bar> < 2 ^ 53" by simp
    then have g: "0 \<le> g" "g \<le> 1"
      using binary64_ge_int [of 0 "1 - f"] binary64_le_int [of "1 - f" 1] f
      by (simp_all add: g_def)
    have ge: "\<bar>g - (1 - f)\<bar> \<le> 1 / 2 ^ 52"
      unfolding g_def using f by (intro binary64_near_4) simp
    have ae: "\<bar>a - 1 / 2 * g\<bar> \<le> 1 / 2 ^ 52"
      unfolding a_def using g by (intro binary64_near_4) simp
    have be: "\<bar>b - 1 / 2 * f\<bar> \<le> 1 / 2 ^ 52"
      unfolding b_def using f by (intro binary64_near_4) simp
    note ge' = abs_leD [OF ge] and ae' = abs_leD [OF ae] and be' = abs_leD [OF be]
    have "- 4 < a + b" "a + b < 4" using ae' be' f g by simp_all
    then have ab: "\<bar>a + b\<bar> < 4" by (simp add: abs_less_iff)
    have se: "\<bar>binary64 (a + b) - (a + b)\<bar> \<le> 1 / 2 ^ 52"
      using ab by (rule binary64_near_4)
    have "1 / 2 - 1 / 2 ^ 50 \<le> binary64 (a + b)" "binary64 (a + b) \<le> 1 / 2 + 1 / 2 ^ 50"
      using ge' ae' be' abs_leD [OF se] by simp_all
    then show ?thesis
      unfolding v by (rule abs_leI)
  qed
qed

lemma pcm_byte_half:
  assumes "\<bar>r - 1 / 2\<bar> \<le> 1 / 2 ^ 50"
  shows "\<lfloor>binary64 (binary64 (clamp1 r + 1) * (255 / 2)) + 1 / 2\<rfloor> = 191"
proof -
  define t where "t = binary64 (r + 1)"
  define u where "u = binary64 (t * (255 / 2))"
  note r' = abs_leD [OF assms]
  have r: "1 / 4 \<le> r" "r \<le> 3 / 4" using r' by simp_all
  then have c: "clamp1 r = r" by (simp add: clamp1_def)
  have te: "\<bar>t - (r + 1)\<bar> \<le> 1 / 2 ^ 52"
    unfolding t_def using r by (intro binary64_near_4) simp
  note te' = abs_leD [OF te]
  have t: "1 \<le> t" "t \<le> 2" using te' r by simp_all
  have ue: "\<bar>u - t * (255 / 2)\<bar> \<le> 1 / 2 ^ 45"
    unfolding u_def using t by (intro binary64_near_256) simp
  have "of_int 191 \<le> u + 1 / 2" "u + 1 / 2 < of_int 191 + 1"
    using r' te' abs_leD [OF ue] by simp_all
  then have "\<lfloor>u + 1 / 2\<rfloor> = 191" by (rule floor_unique)
  then show ?thesis by (simp add: c t_def u_def)
qed

lemma map_upt_const:
  "(\<And>i. i < n \<Longrightarrow> f i = c) \<Longrightarrow> map f [0..<n] = replicate n c"
  by (rule nth_equalityI) simp_all

lemma upt_8: "[0..<8] = [0, 1, 2, 3, 4, 5, 6, 7::nat]"
  by (simp add: upt_rec)

lemma nth_list8:
  assumes "length xs = 8"
  shows "xs = [xs ! 0, xs ! 1, xs ! 2, xs ! 3, xs ! 4, xs ! 5, xs ! 6, xs ! 7]"
proof -
  have "xs = map ((!) xs) [0..<8]" using map_nth [of xs] assms by simp
  then show ?thesis unfolding upt_8 by simp
qed

lemma wf_two_seconds_of_half: "wf_buffer two_seconds_of_half"
  by (simp add: wf_buffer_def two_seconds_of_half_def is_float32_exact list_all_length)

lemma wf_short_ramp: "wf_buffer short_ramp"
  by (simp add: wf_buffer_def short_ramp_def is_float32_exact)

text \<open>
  Claim C1. For a buffer of the platform and any target rate, \<^verbatim>\<open>convertToPCM\<close> returns,
  and its \<open>i\<close>-th byte is computed as follows, every operation rounding to binary64: the
  position \<open>pos = (i * sourceRate) / targetRate\<close>; the sample interpolated there between
  the neighbours \<open>k = \<lfloor>pos\<rfloor>\<close> and \<open>k + 1\<close> of channel 0 (the sample \<open>k\<close> alone when it is
  the last one); that sample clamped to \<open>[-1, 1]\<close>; and \<open>v = \<lfloor>(clamped + 1) * 127.5 + 1/2\<rfloor>\<close>,
  the rounding of \<^verbatim>\<open>Math.round\<close>. The value \<open>v\<close> is in \<open>[0, 255]\<close> whatever the input
  samples are, so that the store into the byte array does not wrap and the byte is \<open>v\<close>.
  A two-second mono buffer at 44100 Hz with every sample 0.5, converted at 8000 Hz, gives
  16000 bytes, all 191.
\<close>

theorem convertToPCM_bytes:
  "(wf_buffer b \<longrightarrow>
      (\<exists>pcm. convertToPCM b opts = Inr pcm \<and>
         (\<forall>i<length pcm.
            let s = channels b ! 0;
                pos = binary64 (binary64 (real (i * sampleRate b)) / real (pcm_sampleRate opts));
                k = nat \<lfloor>pos\<rfloor>;
                fraction = binary64 (pos - real k);
                sample =
                  (if k + 1 < length s
                   then binary64 (binary64 (s ! k * binary64 (1 - fraction)) +
                                  binary64 (s ! (k + 1) * fraction))
                   else if k < length s then s ! k else 0);
                clamped = max (- 1) (min 1 sample);
                v = \<lfloor>binary64 (binary64 (clamped + 1) * (255 / 2)) + 1 / 2\<rfloor>
            in uint (pcm ! i) = v \<and> 0 \<le> v \<and> v \<le> 255))) \<and>
   convertToPCM two_seconds_of_half \<lparr>pcm_sampleRate = 8000\<rparr> = Inr (replicate 16000 191)"
proof (intro conjI impI)
  assume wf: "wf_buffer b"
  let ?n = "nat \<lfloor>real (buf_length b * pcm_sampleRate opts) / real (sampleRate b)\<rfloor>"
  let ?f = "pcm_byte (channels b ! 0) (sampleRate b) (pcm_sampleRate opts)"
  let ?P = "\<lambda>pcm. \<forall>i<length pcm.
            let s = channels b ! 0;
                pos = binary64 (binary64 (real (i * sampleRate b)) / real (pcm_sampleRate opts));
                k = nat \<lfloor>pos\<rfloor>;
                fraction = binary64 (pos - real k);
                sample =
                  (if k + 1 < length s
                   then binary64 (binary64 (s ! k * binary64 (1 - fraction)) +
                                  binary64 (s ! (k + 1) * fraction))
                   else if k < length s then s ! k else 0);
                clamped = max (- 1) (min 1 sample);
                v = \<lfloor>binary64 (binary64 (clamped + 1) * (255 / 2)) + 1 / 2\<rfloor>
            in uint (pcm ! i) = v \<and> 0 \<le> v \<and> v \<le> 255"
  have eq: "convertToPCM b opts = Inr (map ?f [0..<?n])"
    by (rule convertToPCM_eq [OF wf])
  have "?P (map ?f [0..<?n])"
    unfolding Let_def
  proof (intro allI impI)
    fix i assume "i < length (map ?f [0..<?n])"
    then have i: "i < ?n" by simp
    let ?pos = "binary64 (binary64 (real (i * sampleRate b)) / real (pcm_sampleRate opts))"
    let ?sample = "interpolate (channels b ! 0) ?pos"
    let ?v = "\<lfloor>binary64 (binary64 (max (- 1) (min 1 ?sample) + 1) * (255 / 2)) + 1 / 2\<rfloor>"
    have v: "uint (?f i) = ?v"
      unfolding pcm_byte_uint by (simp only: pcm_sample_def clamp1_def)
    have bnd: "0 \<le> ?v \<and> ?v \<le> 255"
      by (rule pcm_value_bounds) simp_all
    have nth: "map ?f [0..<?n] ! i = ?f i" using i by simp
    show "uint (map ?f [0..<?n] ! i) =
            \<lfloor>binary64 (binary64 (max (- 1) (min 1
               (if nat \<lfloor>?pos\<rfloor> + 1 < length (channels b ! 0)
                then binary64
                       (binary64 (channels b ! 0 ! nat \<lfloor>?pos\<rfloor> *
                                  binary64 (1 - binary64 (?pos - real (nat \<lfloor>?pos\<rfloor>)))) +
                        binary64 (channels b ! 0 ! (nat \<lfloor>?pos\<rfloor> + 1) *
                                  binary64 (?pos - real (nat \<lfloor>?pos\<rfloor>))))
                else if nat \<lfloor>?pos\<rfloor> < length (channels b ! 0)
                     then channels b ! 0 ! nat \<lfloor>?pos\<rfloor> else 0)) + 1) * (255 / 2)) + 1 / 2\<rfloor> \<and>
          0 \<le> \<lfloor>binary64 (binary64 (max (- 1) (min 1
               (if nat \<lfloor>?pos\<rfloor> + 1 < length (channels b ! 0)
                then binary64
                       (binary64 (channels b ! 0 ! nat \<lfloor>?pos\<rfloor> *
                                  binary64 (1 - binary64 (?pos - real (nat \<lfloor>?pos\<rfloor>)))) +
                        binary64 (channels b ! 0 ! (nat \<lfloor>?pos\<rfloor> + 1) *
                                  binary64 (?pos - real (nat \<lfloor>?pos\<rfloor>))))
                else if nat \<lfloor>?pos\<rfloor> < length (channels b ! 0)
                     then channels b ! 0 ! nat \<lfloor>?pos\<rfloor> else 0)) + 1) * (255 / 2)) + 1 / 2\<rfloor> \<and>
          \<lfloor>binary64 (binary64 (max (- 1) (min 1
               (if nat \<lfloor>?pos\<rfloor> + 1 < length (channels b ! 0)
                then binary64
                       (binary64 (channels b ! 0 ! nat \<lfloor>?pos\<rfloor> *
                                  binary64 (1 - binary64 (?pos - real (nat \<lfloor>?pos\<rfloor>)))) +
                        binary64 (channels b ! 0 ! (nat \<lfloor>?pos\<rfloor> + 1) *
                                  binary64 (?pos - real (nat \<lfloor>?pos\<rfloor>))))
                else if nat \<lfloor>?pos\<rfloor> < length (channels b ! 0)
                     then channels b ! 0 ! nat \<lfloor>?pos\<rfloor> else 0)) + 1) * (255 / 2)) + 1 / 2\<rfloor> \<le> 255"
      unfolding nth v interpolate_explicit [OF position_nonneg, symmetric]
      using bnd by simp
  qed
  with eq show "\<exists>pcm. convertToPCM b opts = Inr pcm \<and> ?P pcm"
    by blast
next
  let ?b = two_seconds_of_half
  have n: "nat \<lfloor>real (buf_length ?b * 8000) / real (sampleRate ?b)\<rfloor> = 16000"
    by (simp add: two_seconds_of_half_def)
  have c: "channels ?b ! 0 = replicate 88200 (1 / 2)" "sampleRate ?b = 44100"
    by (simp_all add: two_seconds_of_half_def)
  have "map (pcm_byte (replicate 88200 (1 / 2)) 44100 8000) [0..<16000] = replicate 16000 191"
  proof (rule map_upt_const)
    fix i :: nat assume i: "i < 16000"
    let ?q = "real (i * 44100) / real (8000::nat)"
    let ?pos = "binary64 (binary64 (real (i * 44100)) / real (8000::nat))"
    have "i * 44100 < 2 ^ 53" using i by simp
    then have e: "binary64 (real (i * 44100)) = real (i * 44100)" by (rule binary64_nat)
    have "real i \<le> 15999" using i by simp
    then have q: "?q \<le> of_int 88195" "\<bar>?q\<bar> < 2 ^ 53" by simp_all
    have "?pos \<le> of_int 88195" unfolding e using q by (rule binary64_le_int)
    then have "\<lfloor>?pos\<rfloor> \<le> 88195" by (simp add: floor_le_iff)
    then have "\<lfloor>?pos\<rfloor> < int 88200" by simp
    then have "\<bar>interpolate (replicate 88200 (1 / 2)) ?pos - 1 / 2\<bar> \<le> 1 / 2 ^ 50"
      by (intro interpolate_half_near position_nonneg)
    then have "\<lfloor>binary64 (binary64 (clamp1 (interpolate (replicate 88200 (1 / 2)) ?pos) + 1) *
                 (255 / 2)) + 1 / 2\<rfloor> = 191"
      by (rule pcm_byte_half)
    then show "pcm_byte (replicate 88200 (1 / 2)) 44100 8000 i = 191"
      by (simp only: pcm_byte_def pcm_sample_def math_round_def) simp
  qed
  then show "convertToPCM ?b \<lparr>pcm_sampleRate = 8000\<rparr> = Inr (replicate 16000 191)"
    using convertToPCM_eq [OF wf_two_seconds_of_half, of "\<lparr>pcm_sampleRate = 8000\<rparr>"] n c by simp
qed

theorem convertToPCM_bytes_witness:
  "wf_buffer short_ramp \<and>
   convertToPCM short_ramp \<lparr>pcm_sampleRate = 16000\<rparr> =
     Inr [0, 128, 255, 255, 191, 175, 159, 159]"
proof -
  let ?opts = "\<lparr>pcm_sampleRate = 16000\<rparr>"
  from convertToPCM_bytes [of short_ramp ?opts] wf_short_ramp
  obtain pcm where pcm: "convertToPCM short_ramp ?opts = Inr pcm"
    and bytes: "\<forall>i<length pcm.
            let s = channels short_ramp ! 0;
                pos = binary64 (binary64 (real (i * sampleRate short_ramp)) /
                                real (pcm_sampleRate ?opts));
                k = nat \<lfloor>pos\<rfloor>;
                fraction = binary64 (pos - real k);
                sample =
                  (if k + 1 < length s
                   then binary64 (binary64 (s ! k * binary64 (1 - fraction)) +
                                  binary64 (s ! (k + 1) * fraction))
                   else if k < length s then s ! k else 0);
                clamped = max (- 1) (min 1 sample);
                v = \<lfloor>binary64 (binary64 (clamped + 1) * (255 / 2)) + 1 / 2\<rfloor>
            in uint (pcm ! i) = v \<and> 0 \<le> v \<and> v \<le> 255"
    by blast
  have n: "nat \<lfloor>real (buf_length short_ramp * pcm_sampleRate ?opts) /
             real (sampleRate short_ramp)\<rfloor> = 8"
    by (simp add: short_ramp_def)
  have len: "length pcm = 8"
    using pcm unfolding convertToPCM_eq [OF wf_short_ramp] n by auto
  have sel: "channels short_ramp ! 0 = [- 5, 5, 1 / 2, 1 / 4]" "sampleRate short_ramp = 8000"
    by (simp_all add: short_ramp_def)
  have i: "0 < length pcm" "1 < length pcm" "2 < length pcm" "3 < length pcm"
    "4 < length pcm" "5 < length pcm" "6 < length pcm" "7 < length pcm"
    using len by simp_all
  have b0: "uint (pcm ! 0) = 0"
    using bytes [rule_format, OF i(1)] unfolding sel select_convs
    by (simp add: binary64_exact cong: let_cong)
  have b1: "uint (pcm ! 1) = 128"
    using bytes [rule_format, OF i(2)] unfolding sel select_convs
    by (simp add: binary64_exact cong: let_cong)
  have b2: "uint (pcm ! 2) = 255"
    using bytes [rule_format, OF i(3)] unfolding sel select_convs
    by (simp add: binary64_exact cong: let_cong)
  have b3: "uint (pcm ! 3) = 255"
    using bytes [rule_format, OF i(4)] unfolding sel select_convs
    by (simp add: binary64_exact cong: let_cong)
  have b4: "uint (pcm ! 4) = 191"
    using bytes [rule_format, OF i(5)] unfolding sel select_convs
    by (simp add: binary64_exact cong: let_cong)
  have b5: "uint (pcm ! 5) = 175"
    using bytes [rule_format, OF i(6)] unfolding sel select_convs
    by (simp add: binary64_exact cong: let_cong)
  have b6: "uint (pcm ! 6) = 159"
    using bytes [rule_format, OF i(7)] unfolding sel select_convs
    by (simp add: binary64_exact cong: let_cong)
  have b7: "uint (pcm ! 7) = 159"
    using bytes [rule_format, OF i(8)] unfolding sel select_convs
    by (simp add: binary64_exact cong: let_cong)
  have "pcm ! 0 = 0" "pcm ! 1 = 128" "pcm ! 2 = 255" "pcm ! 3 = 255"
    "pcm ! 4 = 191" "pcm ! 5 = 175" "pcm ! 6 = 159" "pcm ! 7 = 159"
    using b0 b1 b2 b3 b4 b5 b6 b7 by (simp_all add: word_uint_eq_iff)
  moreover have "pcm = [pcm ! 0, pcm ! 1, pcm ! 2, pcm ! 3, pcm ! 4, pcm ! 5, pcm ! 6, pcm ! 7]"
    using len by (rule nth_list8)
  ultimately have "pcm = [0, 128, 255, 255, 191, 175, 159, 159]"
    by simp
  with pcm wf_short_ramp show ?thesis by simp
qed

text \<open>
  Claim C2. The result of \<^verbatim>\<open>convertToPCM\<close> has
  \<open>\<lfloor>sourceLength * targetRate / sourceRate\<rfloor>\<close> bytes, where \<open>sourceLength\<close> is the length of
  channel 0; one second at 44100 Hz converted at 8000 Hz gives 8000 bytes.
\<close>

theorem convertToPCM_length:
  "(wf_buffer b \<longrightarrow>
     (\<exists>pcm. convertToPCM b opts = Inr pcm \<and>
        int (length pcm) =
          \<lfloor>real (length (channels b ! 0) * pcm_sampleRate opts) / real (sampleRate b)\<rfloor>)) \<and>
   (wf_buffer b \<and> buf_length b = 44100 \<and> sampleRate b = 44100 \<and> pcm_sampleRate opts = 8000 \<longrightarrow>
     (\<exists>pcm. convertToPCM b opts = Inr pcm \<and> length pcm = 8000))"
proof -
  have A: "\<exists>pcm. convertToPCM b opts = Inr pcm \<and>
        int (length pcm) =
          \<lfloor>real (length (channels b ! 0) * pcm_sampleRate opts) / real (sampleRate b)\<rfloor>"
    if wf: "wf_buffer b"
  proof -
    have len: "length (channels b ! 0) = buf_length b"
      using wf by (simp add: wf_buffer_def list_all_length)
    show ?thesis
      using convertToPCM_eq [OF wf, of opts] by (simp add: len del: of_nat_mult)
  qed
  have B: "\<exists>pcm. convertToPCM b opts = Inr pcm \<and> length pcm = 8000"
    if wf: "wf_buffer b" and "buf_length b = 44100" "sampleRate b = 44100"
      "pcm_sampleRate opts = 8000"
    using convertToPCM_eq [OF wf, of opts] that(2-) by simp
  from A B show ?thesis by blast
qed

theorem convertToPCM_length_witness:
  "wf_buffer one_second_of_silence \<and>
   (\<exists>pcm. convertToPCM one_second_of_silence \<lparr>pcm_sampleRate = 8000\<rparr> = Inr pcm \<and>
      length pcm = 8000)"
proof -
  have wf: "wf_buffer one_second_of_silence"
    by (simp add: wf_buffer_def one_second_of_silence_def is_float32_exact list_all_length)
  show ?thesis
    using convertToPCM_length [of one_second_of_silence "\<lparr>pcm_sampleRate = 8000\<rparr>"] wf
    by (simp add: one_second_of_silence_def)
qed

subsection \<open>The store and the channel loops\<close>

lemma for_channels_done: "n \<le> c \<Longrightarrow> for_channels c n body h = Inr h"
  by (subst for_channels.simps) simp

lemma for_channels_step:
  "c < n \<Longrightarrow> body c h = Inr h' \<Longrightarrow> for_channels c n body h = for_channels (Suc c) n body h'"
  by (subst for_channels.simps) simp

lemma for_channels_fail:
  "c < n \<Longrightarrow> body c h = Inl e \<Longrightarrow> for_channels c n body h = Inl e"
  by (subst for_channels.simps) simp

lemma for_channels_invariant:
  assumes "for_channels c n body h = Inr hf" "I h"
    and step: "\<And>k h' h''. k < n \<Longrightarrow> I h' \<Longrightarrow> body k h' = Inr h'' \<Longrightarrow> I h''"
  shows "I hf"
  using assms(1,2)
proof (induction "n - c" arbitrary: c h)
  case 0
  then show ?case by (simp add: for_channels_done)
next
  case (Suc m)
  then have c: "c < n" by simp
  show ?case
  proof (cases "body c h")
    case (Inl e)
    with Suc.prems c show ?thesis by (simp add: for_channels_fail)
  next
    case (Inr h')
    have "for_channels (Suc c) n body h' = Inr hf"
      using Suc.prems(1) c Inr by (simp add: for_channels_step)
    moreover have "I h'" using step [OF c Suc.prems(2) Inr] .
    moreover have "m = n - Suc c" using Suc.hyps(2) by simp
    ultimately show ?thesis using Suc.hyps(1) by blast
  qed
qed

lemma deref_append_old: "r < length h \<Longrightarrow> deref (h @ [nb]) r = Inr (h ! r)"
  by (simp add: deref_def nth_append)

lemma deref_append_new: "deref (h @ [nb]) (length h) = Inr nb"
  by (simp add: deref_def)

lemma store_channel_append_new:
  "store_channel (h @ [nb]) (length h) c d = h @ [nb\<lparr>channels := (channels nb)[c := d]\<rparr>]"
  by (simp add: store_channel_def)

lemma filled_prefix_update:
  "k < n \<Longrightarrow> (map g [0..<k] @ replicate (n - k) z)[k := g k] =
     map g [0..<Suc k] @ replicate (n - Suc k) z"
  by (simp add: list_update_append replicate_app_Cons_same Suc_diff_Suc [symmetric]
      del: replicate_Suc) (cases "n - k"; simp)

lemma channel_step_new:
  assumes "r < length h" "c < numberOfChannels (h ! r)" "c < length (channels (h ! r))"
    "c < numberOfChannels nb" "c < length (channels nb)"
    "write (channels (h ! r) ! c) (channels nb ! c) = Inr d"
  shows "channel_step write r (length h) c (h @ [nb]) =
           Inr (h @ [nb\<lparr>channels := (channels nb)[c := d]\<rparr>])"
  using assms
  by (simp add: channel_step_def channel_of_def deref_append_old deref_append_new
      getChannelData_def store_channel_append_new)

lemma fill_channels_eq:
  assumes r: "r < length h"
    and n: "length (channels (h ! r)) = n" "numberOfChannels (h ! r) = n"
    and nb: "numberOfChannels nb0 = n" "channels nb0 = replicate n z"
    and w: "\<And>c. c < n \<Longrightarrow> write (channels (h ! r) ! c) z = Inr (g c)"
  shows "fill_channels write r n (h @ [nb0], length h) =
           Inr (h @ [nb0\<lparr>channels := map g [0..<n]\<rparr>], length h)"
proof -
  have loop: "for_channels k n (channel_step write r (length h))
                (h @ [nb0\<lparr>channels := map g [0..<k] @ replicate (n - k) z\<rparr>]) =
              Inr (h @ [nb0\<lparr>channels := map g [0..<n]\<rparr>])" if "k \<le> n" for k
    using that
  proof (induction "n - k" arbitrary: k)
    case 0
    then have "k = n" by simp
    then show ?case by (simp add: for_channels_done)
  next
    case (Suc m)
    then have k: "k < n" by simp
    let ?nb = "nb0\<lparr>channels := map g [0..<k] @ replicate (n - k) z\<rparr>"
    have at_k: "channels ?nb ! k = z"
      using k by (simp add: nth_append)
    have "channel_step write r (length h) k (h @ [?nb]) =
            Inr (h @ [?nb\<lparr>channels := (channels ?nb)[k := g k]\<rparr>])"
      by (rule channel_step_new) (use r n nb k w [OF k] at_k in simp_all)
    also have "?nb\<lparr>channels := (channels ?nb)[k := g k]\<rparr> =
                 nb0\<lparr>channels := map g [0..<Suc k] @ replicate (n - Suc k) z\<rparr>"
      using filled_prefix_update [OF k, of g z] by simp
    finally have step: "channel_step write r (length h) k (h @ [?nb]) =
        Inr (h @ [nb0\<lparr>channels := map g [0..<Suc k] @ replicate (n - Suc k) z\<rparr>])" .
    have "m = n - Suc k" "Suc k \<le> n" using Suc.hyps(2) k by simp_all
    from Suc.hyps(1) [OF this]
      for_channels_step [of k n "channel_step write r (length h)", OF k step]
    show ?case by simp
  qed
  have "nb0\<lparr>channels := map g [0..<0] @ replicate (n - 0) z\<rparr> = nb0"
    using nb by simp
  with loop [of 0] show ?thesis
    by (simp add: fill_channels_def)
qed

lemma store_channel_meta:
  "nr < length h \<Longrightarrow>
     length (store_channel h nr c d) = length h \<and>
     numberOfChannels (store_channel h nr c d ! nr) = numberOfChannels (h ! nr) \<and>
     sampleRate (store_channel h nr c d ! nr) = sampleRate (h ! nr) \<and>
     buf_length (store_channel h nr c d ! nr) = buf_length (h ! nr)"
  by (simp add: store_channel_def)

lemma channel_step_meta:
  assumes "channel_step write r nr c h = Inr h'" "nr < length h"
  shows "length h' = length h \<and> numberOfChannels (h' ! nr) = numberOfChannels (h ! nr) \<and>
         sampleRate (h' ! nr) = sampleRate (h ! nr)"
  using assms store_channel_meta [of nr h c]
  by (auto simp: channel_step_def split: sum.splits)

lemma fill_channels_meta:
  assumes "fill_channels write r n (h1, nr) = Inr (h', r')" "nr < length h1"
  shows "r' = nr \<and> length h' = length h1 \<and>
         numberOfChannels (h' ! nr) = numberOfChannels (h1 ! nr) \<and>
         sampleRate (h' ! nr) = sampleRate (h1 ! nr)"
proof -
  from assms(1) have run: "for_channels 0 n (channel_step write r nr) h1 = Inr h'" and r': "r' = nr"
    by (auto simp: fill_channels_def split: sum.splits)
  let ?I = "\<lambda>s. length s = length h1 \<and> numberOfChannels (s ! nr) = numberOfChannels (h1 ! nr) \<and>
         sampleRate (s ! nr) = sampleRate (h1 ! nr)"
  have "?I h'"
  proof (rule for_channels_invariant [OF run, where I = ?I])
    show "?I h1" by simp
  next
    fix k s s'
    assume "k < n" "?I s" "channel_step write r nr k s = Inr s'"
    then show "?I s'"
      using channel_step_meta [of "write" r nr k s s'] assms(2) by simp
  qed
  with r' show ?thesis by simp
qed

lemma for_channels_fill:
  assumes body: "\<And>k cs. k < n \<Longrightarrow> length cs = n \<Longrightarrow> cs ! k = z \<Longrightarrow>
            body k (h @ [nb0\<lparr>channels := cs\<rparr>]) = Inr (h @ [nb0\<lparr>channels := cs[k := g k]\<rparr>])"
  shows "for_channels 0 n body (h @ [nb0\<lparr>channels := replicate n z\<rparr>]) =
           Inr (h @ [nb0\<lparr>channels := map g [0..<n]\<rparr>])"
proof -
  have loop: "for_channels k n body
                (h @ [nb0\<lparr>channels := map g [0..<k] @ replicate (n - k) z\<rparr>]) =
              Inr (h @ [nb0\<lparr>channels := map g [0..<n]\<rparr>])" if "k \<le> n" for k
    using that
  proof (induction "n - k" arbitrary: k)
    case 0
    then have "k = n" by simp
    then show ?case by (simp add: for_channels_done)
  next
    case (Suc m)
    then have k: "k < n" by simp
    let ?cs = "map g [0..<k] @ replicate (n - k) z"
    have "length ?cs = n" "?cs ! k = z"
      using k by (simp_all add: nth_append)
    from body [OF k this]
    have step: "body k (h @ [nb0\<lparr>channels := ?cs\<rparr>]) =
        Inr (h @ [nb0\<lparr>channels := map g [0..<Suc k] @ replicate (n - Suc k) z\<rparr>])"
      using filled_prefix_update [OF k, of g z] by simp
    have "m = n - Suc k" "Suc k \<le> n" using Suc.hyps(2) k by simp_all
    from Suc.hyps(1) [OF this] for_channels_step [of k n body, OF k step]
    show ?case by simp
  qed
  from loop [of 0] show ?thesis by simp
qed

lemma map_nth_fun: "map (\<lambda>i. F (xs ! i)) [0..<length xs] = map F xs"
  by (rule nth_equalityI) simp_all

lemma map_nth_channels: "map (\<lambda>c. F (xs ! c)) [0..<length xs] = map F xs"
  by (rule map_nth_fun)

lemma channel_step_fail:
  assumes "r < length h" "c < numberOfChannels (h ! r)" "c < length (channels (h ! r))"
    "c < numberOfChannels nb" "c < length (channels nb)"
    "write (channels (h ! r) ! c) (channels nb ! c) = Inl e"
  shows "channel_step write r (length h) c (h @ [nb]) = Inl e"
  using assms
  by (simp add: channel_step_def channel_of_def deref_append_old deref_append_new
      getChannelData_def)

lemma wf_bufferD:
  assumes "wf_buffer b"
  shows "1 \<le> numberOfChannels b" "1 \<le> buf_length b" "0 < sampleRate b"
    "length (channels b) = numberOfChannels b"
    "\<And>c. c < numberOfChannels b \<Longrightarrow> length (channels b ! c) = buf_length b"
    "buf_length b < 2 ^ 32"
    "\<And>c i. c < numberOfChannels b \<Longrightarrow> i < buf_length b \<Longrightarrow> is_float32 (channels b ! c ! i)"
  using assms by (simp_all add: wf_buffer_def list_all_length)

lemma to_unsigned_long_int: "to_unsigned_long (Num (of_int k)) = nat (k mod 2 ^ 32)"
proof -
  have "\<lfloor>- (of_int k :: real)\<rfloor> = - k"
    by (metis floor_of_int of_int_minus)
  then show ?thesis by (simp add: to_unsigned_long_def)
qed

lemma to_unsigned_long_nat: "n < 2 ^ 32 \<Longrightarrow> to_unsigned_long (Num (real n)) = n"
proof -
  assume "n < 2 ^ 32"
  then have "int n mod 2 ^ 32 = int n" by simp
  then show ?thesis using to_unsigned_long_int [of "int n"] by simp
qed

lemma createBuffer_ok:
  "1 \<le> nch \<Longrightarrow> 1 \<le> to_unsigned_long len \<Longrightarrow> 0 < rate \<Longrightarrow>
     createBuffer h nch len rate =
       Inr (h @ [\<lparr>numberOfChannels = nch, buf_length = to_unsigned_long len, sampleRate = rate,
                   channels = replicate nch (replicate (to_unsigned_long len) 0)\<rparr>], length h)"
  by (simp add: createBuffer_def Let_def)

lemma createBuffer_fail:
  "to_unsigned_long len = 0 \<Longrightarrow> createBuffer h nch len rate = Inl NotSupportedError"
  by (simp add: createBuffer_def Let_def)

lemma amplifyAudio_eq:
  assumes r: "r < length h" and wf: "wf_buffer (h ! r)"
  shows "amplifyAudio h r gain =
           Inr (h @ [\<lparr>numberOfChannels = numberOfChannels (h ! r), buf_length = buf_length (h ! r),
                       sampleRate = sampleRate (h ! r),
                       channels = map (map (\<lambda>x. float32 (clamp1 (binary64 (x * gain)))))
                                    (channels (h ! r))\<rparr>],
                length h)"
proof -
  let ?ab = "h ! r"
  let ?n = "numberOfChannels ?ab" and ?L = "buf_length ?ab"
  let ?nb0 = "\<lparr>numberOfChannels = ?n, buf_length = ?L, sampleRate = sampleRate ?ab,
                 channels = replicate ?n (replicate ?L 0)\<rparr>"
  let ?g = "\<lambda>c. map (\<lambda>x. float32 (clamp1 (binary64 (x * gain)))) (channels ?ab ! c)"
  note d = wf_bufferD [OF wf]
  have fr: "to_unsigned_long (Num (real ?L)) = ?L"
    using d(6) by (rule to_unsigned_long_nat)
  have cb: "createBuffer h ?n (Num (real ?L)) (sampleRate ?ab) = Inr (h @ [?nb0], length h)"
    using createBuffer_ok [of ?n "Num (real ?L)" "sampleRate ?ab" h] d(1,2,3)
    unfolding fr by simp
  have w: "amplify_write gain (channels ?ab ! c) (replicate ?L 0) = Inr (?g c)"
    if "c < ?n" for c
    using d(5) [OF that]
      map_nth_fun [of "\<lambda>x. float32 (clamp1 (binary64 (x * gain)))" "channels ?ab ! c"]
    by (simp add: amplify_write_def fill_loop_all)
  have "fill_channels (amplify_write gain) r ?n (h @ [?nb0], length h) =
          Inr (h @ [?nb0\<lparr>channels := map ?g [0..<?n]\<rparr>], length h)"
    by (rule fill_channels_eq) (use r d w in simp_all)
  moreover have "map ?g [0..<?n] =
                   map (map (\<lambda>x. float32 (clamp1 (binary64 (x * gain))))) (channels ?ab)"
    using map_nth_channels [of "map (\<lambda>x. float32 (clamp1 (binary64 (x * gain))))" "channels ?ab"]
      d(4) by simp
  ultimately show ?thesis
    using r cb by (simp add: amplifyAudio_def deref_def)
qed

lemma resample_ok:
  assumes r: "r < length h" and wf: "wf_buffer (h ! r)"
    and F: "1 \<le> nat (N mod 2 ^ 32)" and N: "N \<le> 2 ^ 53"
  shows "(case createBuffer h (numberOfChannels (h ! r)) (Num (of_int N)) (sampleRate (h ! r)) of
            Inl e \<Rightarrow> Inl e
          | Inr created \<Rightarrow>
              fill_channels (resample_write (Num ratio) (Num (of_int N))) r
                (numberOfChannels (h ! r)) created) =
         Inr (h @ [\<lparr>numberOfChannels = numberOfChannels (h ! r),
                     buf_length = nat (N mod 2 ^ 32),
                     sampleRate = sampleRate (h ! r),
                     channels =
                       map (\<lambda>src. fill_loop 0 (nat N)
                                    (\<lambda>i. float32 (interpolate src (binary64 (real i * ratio))))
                                    (replicate (nat (N mod 2 ^ 32)) 0))
                         (channels (h ! r))\<rparr>],
              length h)"
proof -
  let ?ab = "h ! r"
  let ?n = "numberOfChannels ?ab" and ?F = "nat (N mod 2 ^ 32)"
  let ?nb0 = "\<lparr>numberOfChannels = ?n, buf_length = ?F, sampleRate = sampleRate ?ab,
                 channels = replicate ?n (replicate ?F 0)\<rparr>"
  let ?G = "\<lambda>src. fill_loop 0 (nat N)
                    (\<lambda>i. float32 (interpolate src (binary64 (real i * ratio))))
                    (replicate ?F 0)"
  note d = wf_bufferD [OF wf]
  have cb: "createBuffer h ?n (Num (of_int N)) (sampleRate ?ab) = Inr (h @ [?nb0], length h)"
    using createBuffer_ok [of ?n "Num (of_int N)" "sampleRate ?ab" h] d(1,3) F
    unfolding to_unsigned_long_int by simp
  have "\<not> 2 ^ 53 < (of_int N :: real)"
    using N by (metis not_less of_int_le_iff of_int_numeral of_int_power)
  then have w: "resample_write (Num ratio) (Num (of_int N)) (channels ?ab ! c) (replicate ?F 0) =
             Inr (?G (channels ?ab ! c))" for c
    by (simp add: resample_write_def)
  have "fill_channels (resample_write (Num ratio) (Num (of_int N))) r ?n (h @ [?nb0], length h) =
          Inr (h @ [?nb0\<lparr>channels := map (\<lambda>c. ?G (channels ?ab ! c)) [0..<?n]\<rparr>], length h)"
    by (rule fill_channels_eq) (use r d w in simp_all)
  moreover have "map (\<lambda>c. ?G (channels ?ab ! c)) [0..<?n] = map ?G (channels ?ab)"
    using map_nth_channels [of ?G "channels ?ab"] d(4) by simp
  ultimately show ?thesis
    using cb by simp
qed

lemma resample_hang:
  assumes r: "r < length h" and wf: "wf_buffer (h ! r)"
    and F: "1 \<le> nat (N mod 2 ^ 32)" and N: "2 ^ 53 < N"
  shows "(case createBuffer h (numberOfChannels (h ! r)) (Num (of_int N)) (sampleRate (h ! r)) of
            Inl e \<Rightarrow> Inl e
          | Inr created \<Rightarrow>
              fill_channels (resample_write (Num ratio) (Num (of_int N))) r
                (numberOfChannels (h ! r)) created) = Inl NoReturn"
proof -
  let ?ab = "h ! r"
  let ?n = "numberOfChannels ?ab" and ?F = "nat (N mod 2 ^ 32)"
  let ?nb0 = "\<lparr>numberOfChannels = ?n, buf_length = ?F, sampleRate = sampleRate ?ab,
                 channels = replicate ?n (replicate ?F 0)\<rparr>"
  let ?W = "resample_write (Num ratio) (Num (of_int N))"
  note d = wf_bufferD [OF wf]
  have cb: "createBuffer h ?n (Num (of_int N)) (sampleRate ?ab) = Inr (h @ [?nb0], length h)"
    using createBuffer_ok [of ?n "Num (of_int N)" "sampleRate ?ab" h] d(1,3) F
    unfolding to_unsigned_long_int by simp
  have "2 ^ 53 < (of_int N :: real)"
    using N by (metis of_int_less_iff of_int_numeral of_int_power)
  then have w: "?W src tgt = Inl NoReturn" for src tgt
    by (simp add: resample_write_def)
  have n0: "0 < ?n" using d(1) by simp
  have "channel_step ?W r (length h) 0 (h @ [?nb0]) = Inl NoReturn"
    by (rule channel_step_fail) (use r d n0 w in simp_all)
  then have "for_channels 0 ?n (channel_step ?W r (length h)) (h @ [?nb0]) = Inl NoReturn"
    using n0 by (rule for_channels_fail [rotated])
  then show ?thesis
    using cb by (simp add: fill_channels_def)
qed

lemma resample_fail:
  assumes "to_unsigned_long len = 0"
  shows "(case createBuffer h n len rate of
            Inl e \<Rightarrow> Inl e
          | Inr created \<Rightarrow> fill_channels write r n created) = Inl NotSupportedError"
  using assms by (simp add: createBuffer_fail)

lemma interpolate_at_index:
  assumes "i < length xs" "length xs < 2 ^ 32" "\<And>k. k < length xs \<Longrightarrow> is_float32 (xs ! k)"
  shows "float32 (interpolate xs (binary64 (real i * 1))) = xs ! i"
proof -
  have a: "float32 (xs ! i) = xs ! i" "binary64 (xs ! i) = xs ! i"
    using assms(3) [OF assms(1)] by (simp_all add: is_float32D is_float32_binary64)
  have "i < 2 ^ 53" using assms(1,2) by simp
  then have p: "binary64 (real i * 1) = real i" by (simp add: binary64_nat)
  show ?thesis
  proof (cases "int i + 1 < int (length xs)")
    case True
    then show ?thesis
      unfolding p by (simp add: interpolate_def Let_def binary64_zero binary64_one a)
  next
    case False
    then show ?thesis using assms(1)
      unfolding p by (simp add: interpolate_def Let_def typed_get_def or_zero_def a)
  qed
qed

subsection \<open>Amplify, pitch shift and speed change\<close>

lemma wf_stereo_pair: "wf_buffer stereo_pair"
  by (simp add: wf_buffer_def stereo_pair_def is_float32_exact)

lemma wf_fine_steps: "wf_buffer fine_steps"
  using is_float32_dyadic [of 8388609 24]
  by (simp add: wf_buffer_def fine_steps_def is_float32_exact)

text \<open>
  Claim C6. For a buffer of the platform and any gain, \<^verbatim>\<open>amplifyAudio\<close> returns a new
  buffer in which every sample of every channel is the input sample times the gain (the
  product rounded to binary64), clamped to \<open>[-1, 1]\<close>, and stored as an element of the
  \<^verbatim>\<open>Float32Array\<close>; so every output sample lies in \<open>[-1, 1]\<close>, and no gain makes it
  fail.
\<close>

theorem amplifyAudio_clamped:
  assumes "r < length h" "wf_buffer (h ! r)"
  shows "\<exists>nb. amplifyAudio h r gain = Inr (h @ [nb], length h) \<and>
           length (channels nb) = numberOfChannels (h ! r) \<and>
           (\<forall>c<numberOfChannels (h ! r).
              length (channels nb ! c) = buf_length (h ! r) \<and>
              (\<forall>i<buf_length (h ! r).
                 channels nb ! c ! i =
                   float32 (max (- 1) (min 1 (binary64 (channels (h ! r) ! c ! i * gain)))) \<and>
                 - 1 \<le> channels nb ! c ! i \<and> channels nb ! c ! i \<le> 1))"
proof -
  note d = wf_bufferD [OF assms(2)]
  let ?nb = "\<lparr>numberOfChannels = numberOfChannels (h ! r), buf_length = buf_length (h ! r),
               sampleRate = sampleRate (h ! r),
               channels = map (map (\<lambda>x. float32 (clamp1 (binary64 (x * gain)))))
                            (channels (h ! r))\<rparr>"
  have "amplifyAudio h r gain = Inr (h @ [?nb], length h)"
    by (rule amplifyAudio_eq [OF assms])
  moreover have "length (channels ?nb) = numberOfChannels (h ! r)"
    using d(4) by simp
  moreover have "\<forall>c<numberOfChannels (h ! r).
              length (channels ?nb ! c) = buf_length (h ! r) \<and>
              (\<forall>i<buf_length (h ! r).
                 channels ?nb ! c ! i =
                   float32 (max (- 1) (min 1 (binary64 (channels (h ! r) ! c ! i * gain)))) \<and>
                 - 1 \<le> channels ?nb ! c ! i \<and> channels ?nb ! c ! i \<le> 1)"
  proof (intro allI impI conjI)
    fix c assume c: "c < numberOfChannels (h ! r)"
    show "length (channels ?nb ! c) = buf_length (h ! r)"
      using c d(4,5) by simp
    fix i assume i: "i < buf_length (h ! r)"
    let ?v = "float32 (max (- 1) (min 1 (binary64 (channels (h ! r) ! c ! i * gain))))"
    have v: "channels ?nb ! c ! i = ?v"
      using c i d(4,5) by (simp add: clamp1_def)
    have b: "- 1 \<le> ?v \<and> ?v \<le> 1"
      by (rule float32_unit_interval) simp_all
    show "channels ?nb ! c ! i = ?v" by (rule v)
    show "- 1 \<le> channels ?nb ! c ! i" unfolding v using b by simp
    show "channels ?nb ! c ! i \<le> 1" unfolding v using b by simp
  qed
  ultimately show ?thesis by blast
qed

lemma tenth: "binary64 (1 / 10) = 3602879701896397 / 36028797018963968"
  by (rule binary64_eval [where e = "- 4" and m = 7205759403792794])
    (simp_all add: powr_minus_divide round_half_even_def Let_def)

lemma amplified_by_three_halves:
  "float32 (clamp1 (binary64 (8388609 / 16777216 * (3 / 2)))) = 6291457 / 8388608"
proof -
  have a: "binary64 (8388609 / 16777216 * (3 / 2)) = 25165827 / 33554432"
    using binary64_dyadic [of 25165827 25] by simp
  have c: "clamp1 (25165827 / 33554432) = 25165827 / 33554432"
    by (simp add: clamp1_def)
  have b: "float32 (25165827 / 33554432) = 6291457 / 8388608"
    by (rule float32_eval [where e = "- 1" and m = 12582914])
      (simp_all add: powr_minus_divide round_half_even_def Let_def)
  show ?thesis by (simp only: a c b)
qed

lemma amplified_by_a_tenth:
  "float32 (clamp1 (binary64 (8388609 / 16777216 * (3602879701896397 / 36028797018963968)))) =
     6710887 / 134217728"
  "float32 (clamp1 (binary64 (1 / 4 * (3602879701896397 / 36028797018963968)))) =
     13421773 / 536870912"
  "float32 (clamp1 (binary64 (- 1 * (3602879701896397 / 36028797018963968)))) =
     - (13421773 / 134217728)"
proof -
  have a: "binary64 (8388609 / 16777216 * (3602879701896397 / 36028797018963968)) =
          7205760262786253 / 144115188075855872"
    by (rule binary64_eval [where e = "- 5" and m = 7205760262786253])
      (simp_all add: powr_minus_divide round_half_even_def Let_def)
  have c: "clamp1 (7205760262786253 / 144115188075855872) =
             7205760262786253 / 144115188075855872"
    by (simp add: clamp1_def)
  have b: "float32 (7205760262786253 / 144115188075855872) = 6710887 / 134217728"
    by (rule float32_eval [where e = "- 5" and m = 13421774])
      (simp_all add: powr_minus_divide round_half_even_def Let_def)
  show "float32 (clamp1 (binary64 (8388609 / 16777216 *
      (3602879701896397 / 36028797018963968)))) = 6710887 / 134217728"
    by (simp only: a c b)
  have a: "binary64 (1 / 4 * (3602879701896397 / 36028797018963968)) =
          3602879701896397 / 144115188075855872"
    using binary64_dyadic [of 3602879701896397 57] by simp
  have c: "clamp1 (3602879701896397 / 144115188075855872) =
             3602879701896397 / 144115188075855872"
    by (simp add: clamp1_def)
  have b: "float32 (3602879701896397 / 144115188075855872) = 13421773 / 536870912"
    by (rule float32_eval [where e = "- 6" and m = 13421773])
      (simp_all add: powr_minus_divide round_half_even_def Let_def)
  show "float32 (clamp1 (binary64 (1 / 4 *
      (3602879701896397 / 36028797018963968)))) = 13421773 / 536870912"
    by (simp only: a c b)
  have a: "binary64 (- 1 * (3602879701896397 / 36028797018963968)) =
             - (3602879701896397 / 36028797018963968)"
    using binary64_dyadic [of "- 3602879701896397" 55] by simp
  have c: "clamp1 (- (3602879701896397 / 36028797018963968)) =
             - (3602879701896397 / 36028797018963968)"
    by (simp add: clamp1_def)
  have "float32 (3602879701896397 / 36028797018963968) = 13421773 / 134217728"
    by (rule float32_eval [where e = "- 4" and m = 13421773])
      (simp_all add: powr_minus_divide round_half_even_def Let_def)
  then have b: "float32 (- (3602879701896397 / 36028797018963968)) = - (13421773 / 134217728)"
    by (simp only: float32_minus)
  show "float32 (clamp1 (binary64 (- 1 *
      (3602879701896397 / 36028797018963968)))) = - (13421773 / 134217728)"
    by (simp only: a c b)
qed

theorem amplifyAudio_clamped_witness:
  "0 < length [stereo_pair] \<and> wf_buffer ([stereo_pair] ! 0) \<and>
   (\<exists>nb. amplifyAudio [stereo_pair] 0 2 = Inr ([stereo_pair, nb], 1) \<and>
      channels nb = [[1 / 2, - 1, 1], [0, 1, - 1]]) \<and>
   0 < length [fine_steps] \<and> wf_buffer ([fine_steps] ! 0) \<and>
   (\<exists>nb. amplifyAudio [fine_steps] 0 (3 / 2) = Inr ([fine_steps, nb], 1) \<and>
      channels nb = [[6291457 / 8388608, 3 / 8, - 1]]) \<and>
   (\<exists>nb. amplifyAudio [fine_steps] 0 (binary64 (1 / 10)) = Inr ([fine_steps, nb], 1) \<and>
      channels nb = [[6710887 / 134217728, 13421773 / 536870912, - (13421773 / 134217728)]])"
proof -
  have wf: "wf_buffer ([stereo_pair] ! 0)" by (simp add: wf_stereo_pair)
  have wf': "wf_buffer ([fine_steps] ! 0)" by (simp add: wf_fine_steps)
  from amplifyAudio_clamped [of 0 "[stereo_pair]" 2] wf
  obtain nb where nb: "amplifyAudio [stereo_pair] 0 2 = Inr ([stereo_pair] @ [nb], length [stereo_pair])"
    by auto
  have "channels nb = [[1 / 2, - 1, 1], [0, 1, - 1]]"
    using nb amplifyAudio_eq [of 0 "[stereo_pair]" 2] wf
    by (simp add: stereo_pair_def clamp1_def binary64_exact is_float32D is_float32_exact)
  with nb have A: "\<exists>nb. amplifyAudio [stereo_pair] 0 2 = Inr ([stereo_pair, nb], 1) \<and>
      channels nb = [[1 / 2, - 1, 1], [0, 1, - 1]]"
    by simp
  from amplifyAudio_clamped [of 0 "[fine_steps]" "3 / 2"] wf'
  obtain nb1 where nb1: "amplifyAudio [fine_steps] 0 (3 / 2) =
      Inr ([fine_steps] @ [nb1], length [fine_steps])"
    by auto
  have "channels nb1 = [[6291457 / 8388608, 3 / 8, - 1]]"
    using nb1 amplifyAudio_eq [of 0 "[fine_steps]" "3 / 2"] wf' amplified_by_three_halves
    by (simp add: fine_steps_def clamp1_def binary64_exact is_float32D is_float32_exact)
  with nb1 have B: "\<exists>nb. amplifyAudio [fine_steps] 0 (3 / 2) = Inr ([fine_steps, nb], 1) \<and>
      channels nb = [[6291457 / 8388608, 3 / 8, - 1]]"
    by simp
  from amplifyAudio_clamped [of 0 "[fine_steps]" "binary64 (1 / 10)"] wf'
  obtain nb2 where nb2: "amplifyAudio [fine_steps] 0 (binary64 (1 / 10)) =
      Inr ([fine_steps] @ [nb2], length [fine_steps])"
    by auto
  have "channels nb2 =
          [[6710887 / 134217728, 13421773 / 536870912, - (13421773 / 134217728)]]"
    using nb2 amplifyAudio_eq [of 0 "[fine_steps]" "binary64 (1 / 10)"] wf'
      amplified_by_a_tenth
    unfolding tenth by (simp add: fine_steps_def)
  with nb2 have C: "\<exists>nb. amplifyAudio [fine_steps] 0 (binary64 (1 / 10)) =
      Inr ([fine_steps, nb], 1) \<and>
      channels nb = [[6710887 / 134217728, 13421773 / 536870912, - (13421773 / 134217728)]]"
    by simp
  from A B C wf wf' show ?thesis by simp
qed
lemma changeSpeed_unfold:
  assumes "r < length h"
  shows "changeSpeed h r speed =
     (case createBuffer h (numberOfChannels (h ! r))
             (math_floor (divide_by (real (buf_length (h ! r))) (Num speed)))
             (sampleRate (h ! r)) of
        Inl e \<Rightarrow> Inl e
      | Inr created \<Rightarrow>
          fill_channels
            (resample_write (Num speed)
               (math_floor (divide_by (real (buf_length (h ! r))) (Num speed))))
            r (numberOfChannels (h ! r)) created)"
  using assms by (simp add: changeSpeed_def deref_def Let_def)

lemma newLength_finite:
  assumes "speed \<noteq> 0" "\<bar>L / speed\<bar> < 2 ^ 1024 - 2 ^ 970"
  shows "math_floor (divide_by L (Num speed)) = Num (of_int \<lfloor>binary64 (L / speed)\<rfloor>)"
  using assms by (simp add: math_floor_def divide_by_def to_number_def)

lemma newLength_not_finite:
  assumes "speed = 0 \<or> 2 ^ 1024 - 2 ^ 970 \<le> \<bar>L / speed\<bar>"
  shows "math_floor (divide_by L (Num speed)) = NotFinite"
  using assms by (auto simp: math_floor_def divide_by_def to_number_def)

lemma changeSpeed_raises:
  assumes "r < length h"
    and "speed = 0 \<or> 2 ^ 1024 - 2 ^ 970 \<le> \<bar>real (buf_length (h ! r)) / speed\<bar> \<or>
         \<lfloor>binary64 (real (buf_length (h ! r)) / speed)\<rfloor> mod 2 ^ 32 = 0"
  shows "changeSpeed h r speed = Inl NotSupportedError"
proof -
  let ?len = "math_floor (divide_by (real (buf_length (h ! r))) (Num speed))"
  have "to_unsigned_long ?len = 0"
  proof (cases "speed = 0 \<or> 2 ^ 1024 - 2 ^ 970 \<le> \<bar>real (buf_length (h ! r)) / speed\<bar>")
    case True
    then have "math_floor (divide_by (real (buf_length (h ! r))) (Num speed)) = NotFinite"
      by (rule newLength_not_finite)
    then show ?thesis
      by (simp add: to_unsigned_long_def)
  next
    case False
    then have f: "speed \<noteq> 0" "\<bar>real (buf_length (h ! r)) / speed\<bar> < 2 ^ 1024 - 2 ^ 970"
      by simp_all
    from False assms(2) have "\<lfloor>binary64 (real (buf_length (h ! r)) / speed)\<rfloor> mod 2 ^ 32 = 0"
      by blast
    then show ?thesis
      by (simp only: newLength_finite [OF f] to_unsigned_long_int nat_0)
  qed
  then show ?thesis
    unfolding changeSpeed_unfold [OF assms(1)] by (rule resample_fail)
qed

lemma changeSpeed_hangs:
  assumes "r < length h" "wf_buffer (h ! r)"
    and "speed \<noteq> 0" "\<bar>real (buf_length (h ! r)) / speed\<bar> < 2 ^ 1024 - 2 ^ 970"
    and "\<lfloor>binary64 (real (buf_length (h ! r)) / speed)\<rfloor> mod 2 ^ 32 \<noteq> 0"
    and "2 ^ 53 < \<lfloor>binary64 (real (buf_length (h ! r)) / speed)\<rfloor>"
  shows "changeSpeed h r speed = Inl NoReturn"
proof -
  let ?N = "\<lfloor>binary64 (real (buf_length (h ! r)) / speed)\<rfloor>"
  have "0 \<le> ?N mod 2 ^ 32" by simp
  with assms(5) have F: "1 \<le> nat (?N mod 2 ^ 32)" by linarith
  show ?thesis
    unfolding changeSpeed_unfold [OF assms(1)] newLength_finite [OF assms(3,4)]
    by (rule resample_hang [OF assms(1,2) F assms(6)])
qed

lemma changeSpeed_completes:
  assumes "r < length h" "wf_buffer (h ! r)"
    and "speed \<noteq> 0" "\<bar>real (buf_length (h ! r)) / speed\<bar> < 2 ^ 1024 - 2 ^ 970"
    and "\<lfloor>binary64 (real (buf_length (h ! r)) / speed)\<rfloor> mod 2 ^ 32 \<noteq> 0"
    and "\<lfloor>binary64 (real (buf_length (h ! r)) / speed)\<rfloor> \<le> 2 ^ 53"
  shows "\<exists>res. changeSpeed h r speed = Inr res"
proof -
  let ?N = "\<lfloor>binary64 (real (buf_length (h ! r)) / speed)\<rfloor>"
  have "0 \<le> ?N mod 2 ^ 32" by simp
  with assms(5) have F: "1 \<le> nat (?N mod 2 ^ 32)" by linarith
  show ?thesis
    unfolding changeSpeed_unfold [OF assms(1)] newLength_finite [OF assms(3,4)]
    using resample_ok [OF assms(1,2) F assms(6), of speed] by blast
qed

lemma changeSpeed_eq:
  assumes "r < length h" "wf_buffer (h ! r)"
    and "speed \<noteq> 0" "\<bar>real (buf_length (h ! r)) / speed\<bar> < 2 ^ 1024 - 2 ^ 970"
    and "\<lfloor>binary64 (real (buf_length (h ! r)) / speed)\<rfloor> = int n" "1 \<le> n" "n < 2 ^ 32"
  shows "changeSpeed h r speed =
         Inr (h @ [\<lparr>numberOfChannels = numberOfChannels (h ! r),
                     buf_length = n,
                     sampleRate = sampleRate (h ! r),
                     channels =
                       map (\<lambda>src. map (\<lambda>i. float32 (interpolate src (binary64 (real i * speed))))
                                    [0..<n])
                         (channels (h ! r))\<rparr>],
              length h)"
proof -
  have m: "int n mod 2 ^ 32 = int n" using assms(7) by simp
  have F: "1 \<le> nat (int n mod 2 ^ 32)" unfolding m using assms(6) by simp
  have N: "int n \<le> 2 ^ 53" using assms(7) by simp
  have fl: "fill_loop 0 n f (replicate n (0::real)) = map f [0..<n]" for f
    by (simp add: fill_loop_all)
  show ?thesis
    unfolding changeSpeed_unfold [OF assms(1)] newLength_finite [OF assms(3,4)] assms(5)
    using resample_ok [OF assms(1,2) F N, of speed]
    unfolding m by (simp only: nat_int fl)
qed

lemma pitchShift_as_changeSpeed:
  assumes "r < length h"
  shows "pitchShift h r semitones =
           (if 2 ^ 1024 - 2 ^ 970 \<le> 2 powr binary64 (semitones / 12)
            then Inl NotSupportedError
            else changeSpeed h r (binary64 (2 powr binary64 (semitones / 12))))"
proof (cases "2 ^ 1024 - 2 ^ 970 \<le> (2::real) powr binary64 (semitones / 12)")
  case True
  then have "math_pow2 (binary64 (semitones / 12)) = NotFinite"
    by (simp add: math_pow2_def to_number_def)
  then have "to_unsigned_long
               (math_floor (divide_by (real (buf_length (h ! r)))
                  (math_pow2 (binary64 (semitones / 12))))) = 0"
    by (simp add: divide_by_def math_floor_def to_unsigned_long_def)
  then show ?thesis
    using assms True by (simp add: pitchShift_def deref_def Let_def createBuffer_fail)
next
  case False
  then have "math_pow2 (binary64 (semitones / 12)) =
               Num (binary64 (2 powr binary64 (semitones / 12)))"
    by (simp add: math_pow2_def to_number_def)
  then show ?thesis
    using assms False by (simp add: pitchShift_def changeSpeed_def deref_def Let_def)
qed

lemma identity_resample:
  assumes "length src = L" "L < 2 ^ 32" "\<And>k. k < L \<Longrightarrow> is_float32 (src ! k)"
  shows "map (\<lambda>i. float32 (interpolate src (binary64 (real i * 1)))) [0..<L] = src"
  using assms by (intro nth_equalityI) (simp_all only: length_map length_upt
      diff_zero nth_map_upt add_0 interpolate_at_index)

text \<open>
  Claim C7. \<^verbatim>\<open>pitchShift(buf, 0)\<close> returns a buffer of the length of \<open>buf\<close> whose
  samples, in every channel, are those of \<open>buf\<close>: the ratio is \<open>2\<^sup>0 = 1\<close> and the
  interpolation at a whole index is the sample there.
\<close>

theorem pitchShift_zero_identity:
  assumes "r < length h" "wf_buffer (h ! r)"
  shows "\<exists>nb. pitchShift h r 0 = Inr (h @ [nb], length h) \<and>
           buf_length nb = buf_length (h ! r) \<and>
           channels nb = channels (h ! r)"
proof -
  note d = wf_bufferD [OF assms(2)]
  let ?L = "buf_length (h ! r)"
  have ratio: "binary64 (2 powr binary64 (0 / 12)) = 1"
    by (simp add: binary64_zero binary64_one)
  have small: "\<not> 2 ^ 1024 - 2 ^ 970 \<le> (2::real) powr binary64 (0 / 12)"
    by (simp add: binary64_zero)
  have ps: "pitchShift h r 0 = changeSpeed h r 1"
    unfolding pitchShift_as_changeSpeed [OF assms(1)] ratio using small by simp
  have "real ?L < 2 ^ 32" using d(6) by (metis of_nat_less_iff of_nat_numeral of_nat_power)
  then have fin: "\<bar>real ?L / 1\<bar> < 2 ^ 1024 - 2 ^ 970" by simp
  have "?L < 2 ^ 53" using d(6) by simp
  then have N: "\<lfloor>binary64 (real ?L / 1)\<rfloor> = int ?L" by (simp add: binary64_nat)
  have "map (\<lambda>src. map (\<lambda>i. float32 (interpolate src (binary64 (real i * 1)))) [0..<?L])
          (channels (h ! r)) = channels (h ! r)"
  proof (rule map_idI)
    fix src assume "src \<in> set (channels (h ! r))"
    then obtain c where c: "c < length (channels (h ! r))" "src = channels (h ! r) ! c"
      by (auto simp: in_set_conv_nth)
    then have "length src = ?L" using d(4,5) by simp
    moreover have "is_float32 (src ! k)" if "k < ?L" for k
      using d(7) [of c k] c d(4) that by simp
    ultimately show "map (\<lambda>i. float32 (interpolate src (binary64 (real i * 1)))) [0..<?L] = src"
      using d(6) by (intro identity_resample)
  qed
  with changeSpeed_eq [OF assms _ fin N d(2,6)] show ?thesis
    unfolding ps by simp
qed

theorem pitchShift_zero_identity_witness:
  "0 < length [stereo_pair] \<and> wf_buffer ([stereo_pair] ! 0) \<and>
   (\<exists>nb. pitchShift [stereo_pair] 0 0 = Inr ([stereo_pair, nb], 1) \<and>
      buf_length nb = 3 \<and> channels nb = [[1 / 4, - 3 / 4, 1 / 2], [0, 1, - 1]])"
  using pitchShift_zero_identity [of 0 "[stereo_pair]"] wf_stereo_pair
  by (simp add: stereo_pair_def)

text \<open>
  Claim C3, as stated, fails: a speed of \<open>0\<close>, and a ratio above the length of the
  buffer (a speed of 4, or 24 semitones, on three frames), ask \<^verbatim>\<open>createBuffer\<close> for zero
  frames, and the transform raises \<^verbatim>\<open>NotSupportedError\<close>.
\<close>

theorem transforms_may_raise:
  "wf_buffer stereo_pair \<and>
   changeSpeed [stereo_pair] 0 0 = Inl NotSupportedError \<and>
   changeSpeed [stereo_pair] 0 4 = Inl NotSupportedError \<and>
   pitchShift [stereo_pair] 0 24 = Inl NotSupportedError"
proof -
  have zero: "changeSpeed [stereo_pair] 0 0 = Inl NotSupportedError"
    by (rule changeSpeed_raises) simp_all
  have q: "\<lfloor>binary64 (3 / 4)\<rfloor> = 0"
    by (simp add: binary64_exact)
  have four: "changeSpeed [stereo_pair] 0 4 = Inl NotSupportedError"
    by (rule changeSpeed_raises) (simp_all add: stereo_pair_def q)
  have "binary64 (24 / 12) = 2" by (simp add: binary64_exact)
  then have p: "(2::real) powr binary64 (24 / 12) = 4" by simp
  have "pitchShift [stereo_pair] 0 24 = changeSpeed [stereo_pair] 0 (binary64 4)"
    using pitchShift_as_changeSpeed [of 0 "[stereo_pair]" 24] unfolding p by simp
  then have "pitchShift [stereo_pair] 0 24 = Inl NotSupportedError"
    using four by (simp add: binary64_exact)
  with zero four wf_stereo_pair show ?thesis by simp
qed

text \<open>
  Claim C3, amended. For a buffer of the platform, \<^verbatim>\<open>amplifyAudio\<close> completes for every
  gain. \<^verbatim>\<open>changeSpeed\<close> asks for \<open>n = \<lfloor>length / speed\<rfloor>\<close> frames, the quotient rounded to
  binary64. It raises \<^verbatim>\<open>NotSupportedError\<close> when the quotient is not finite (the speed
  is \<open>0\<close>, or the quotient overflows) and when \<open>n\<close> is a multiple of \<open>2\<^sup>3\<^sup>2\<close>, as \<open>0\<close> is
  (a speed above the length): the buffer would have no frame. Otherwise the buffer is
  created; the transform then does not return when \<open>n\<close> exceeds \<open>2\<^sup>5\<^sup>3\<close>, where the loop
  counter stops growing, and it completes in every other case. \<^verbatim>\<open>pitchShift\<close> by \<open>s\<close>
  semitones is \<^verbatim>\<open>changeSpeed\<close> at the ratio \<^verbatim>\<open>Math.pow(2, s / 12)\<close>, and raises
  \<^verbatim>\<open>NotSupportedError\<close> when that ratio is infinite.
\<close>

theorem transforms_complete_unless_no_frames:
  assumes "r < length h" "wf_buffer (h ! r)"
  shows "let len = real (buf_length (h ! r));
             n = \<lfloor>binary64 (len / speed)\<rfloor>;
             no_frames =
               (speed = 0 \<or> 2 ^ 1024 - 2 ^ 970 \<le> \<bar>len / speed\<bar> \<or> n mod 2 ^ 32 = 0);
             power = 2 powr binary64 (semitones / 12)
         in (\<exists>res. amplifyAudio h r gain = Inr res) \<and>
            (no_frames \<longrightarrow> changeSpeed h r speed = Inl NotSupportedError) \<and>
            (\<not> no_frames \<and> 2 ^ 53 < n \<longrightarrow> changeSpeed h r speed = Inl NoReturn) \<and>
            (\<not> no_frames \<and> n \<le> 2 ^ 53 \<longrightarrow> (\<exists>res. changeSpeed h r speed = Inr res)) \<and>
            pitchShift h r semitones =
              (if 2 ^ 1024 - 2 ^ 970 \<le> power then Inl NotSupportedError
               else changeSpeed h r (binary64 power))"
  unfolding Let_def
proof (intro conjI impI)
  show "\<exists>res. amplifyAudio h r gain = Inr res"
    using amplifyAudio_eq [OF assms] by blast
next
  assume "speed = 0 \<or> 2 ^ 1024 - 2 ^ 970 \<le> \<bar>real (buf_length (h ! r)) / speed\<bar> \<or>
          \<lfloor>binary64 (real (buf_length (h ! r)) / speed)\<rfloor> mod 2 ^ 32 = 0"
  then show "changeSpeed h r speed = Inl NotSupportedError"
    by (rule changeSpeed_raises [OF assms(1)])
next
  assume a: "\<not> (speed = 0 \<or> 2 ^ 1024 - 2 ^ 970 \<le> \<bar>real (buf_length (h ! r)) / speed\<bar> \<or>
          \<lfloor>binary64 (real (buf_length (h ! r)) / speed)\<rfloor> mod 2 ^ 32 = 0) \<and>
          2 ^ 53 < \<lfloor>binary64 (real (buf_length (h ! r)) / speed)\<rfloor>"
  then have "speed \<noteq> 0" "\<bar>real (buf_length (h ! r)) / speed\<bar> < 2 ^ 1024 - 2 ^ 970"
    "\<lfloor>binary64 (real (buf_length (h ! r)) / speed)\<rfloor> mod 2 ^ 32 \<noteq> 0"
    "2 ^ 53 < \<lfloor>binary64 (real (buf_length (h ! r)) / speed)\<rfloor>"
    by simp_all
  then show "changeSpeed h r speed = Inl NoReturn"
    by (rule changeSpeed_hangs [OF assms])
next
  assume a: "\<not> (speed = 0 \<or> 2 ^ 1024 - 2 ^ 970 \<le> \<bar>real (buf_length (h ! r)) / speed\<bar> \<or>
          \<lfloor>binary64 (real (buf_length (h ! r)) / speed)\<rfloor> mod 2 ^ 32 = 0) \<and>
          \<lfloor>binary64 (real (buf_length (h ! r)) / speed)\<rfloor> \<le> 2 ^ 53"
  then have "speed \<noteq> 0" "\<bar>real (buf_length (h ! r)) / speed\<bar> < 2 ^ 1024 - 2 ^ 970"
    "\<lfloor>binary64 (real (buf_length (h ! r)) / speed)\<rfloor> mod 2 ^ 32 \<noteq> 0"
    "\<lfloor>binary64 (real (buf_length (h ! r)) / speed)\<rfloor> \<le> 2 ^ 53"
    by simp_all
  then show "\<exists>res. changeSpeed h r speed = Inr res"
    by (rule changeSpeed_completes [OF assms])
next
  show "pitchShift h r semitones =
          (if 2 ^ 1024 - 2 ^ 970 \<le> 2 powr binary64 (semitones / 12) then Inl NotSupportedError
           else changeSpeed h r (binary64 (2 powr binary64 (semitones / 12))))"
    by (rule pitchShift_as_changeSpeed [OF assms(1)])
qed
lemma slow_speed:
  "binary64 (3 / (3377699720527871 / 10141204801825835211973625643008)) = 9007199254740994"
  by (rule binary64_eval [where e = 53 and m = 4503599627370497])
    (simp_all add: round_half_even_def Let_def)

theorem transforms_complete_unless_no_frames_witness:
  "0 < length [stereo_pair] \<and> wf_buffer ([stereo_pair] ! 0) \<and>
   (\<exists>res. amplifyAudio [stereo_pair] 0 1000 = Inr res) \<and>
   (\<exists>res. changeSpeed [stereo_pair] 0 (1 / 2) = Inr res) \<and>
   (\<exists>res. pitchShift [stereo_pair] 0 12 = Inr res) \<and>
   changeSpeed [stereo_pair] 0 (3 / 4294967296) = Inl NotSupportedError \<and>
   changeSpeed [stereo_pair] 0 (3377699720527871 / 10141204801825835211973625643008) =
     Inl NoReturn"
proof -
  have wf: "wf_buffer ([stereo_pair] ! 0)" by (simp add: wf_stereo_pair)
  have len: "real (buf_length ([stereo_pair] ! 0)) = 3" by (simp add: stereo_pair_def)
  note T = transforms_complete_unless_no_frames [of 0 "[stereo_pair]", OF _ wf,
      unfolded Let_def len]
  have q1: "\<lfloor>binary64 (3 / (1 / 2))\<rfloor> = 6" by (simp add: binary64_exact)
  have q2: "\<lfloor>binary64 (3 / 2)\<rfloor> = 1" by (simp add: binary64_exact)
  have q3: "\<lfloor>binary64 (3 / (3 / 4294967296))\<rfloor> = 4294967296" by (simp add: binary64_exact)
  have q4: "\<lfloor>binary64 (3 / (3377699720527871 / 10141204801825835211973625643008))\<rfloor> =
              9007199254740994"
    by (simp only: slow_speed) simp
  have p: "binary64 (2 powr binary64 (12 / 12)) = 2" "(2::real) powr binary64 (12 / 12) = 2"
    by (simp_all add: binary64_exact)
  have A: "\<exists>res. amplifyAudio [stereo_pair] 0 1000 = Inr res"
    and B: "\<exists>res. changeSpeed [stereo_pair] 0 (1 / 2) = Inr res"
    and C: "pitchShift [stereo_pair] 0 12 = changeSpeed [stereo_pair] 0 2"
    using T [where speed = "1 / 2" and gain = 1000 and semitones = 12] unfolding q1 p
    by (simp_all add: binary64_exact)
  have D: "\<exists>res. changeSpeed [stereo_pair] 0 2 = Inr res"
    using T [where speed = 2 and gain = 1000 and semitones = 12] unfolding q2 by simp
  have E: "changeSpeed [stereo_pair] 0 (3 / 4294967296) = Inl NotSupportedError"
    using T [where speed = "3 / 4294967296" and gain = 1000 and semitones = 12] unfolding q3 by simp
  have F: "changeSpeed [stereo_pair] 0 (3377699720527871 / 10141204801825835211973625643008) =
             Inl NoReturn"
    using T [where speed = "3377699720527871 / 10141204801825835211973625643008"
        and gain = 1000 and semitones = 12]
    unfolding q4 by simp
  from A B C D E F wf show ?thesis by simp
qed

subsection \<open>Normalize\<close>

lemma peak_loop_Max: "peak_loop m xs = Max (insert m ((\<lambda>x. \<bar>x\<bar>) ` set xs))"
proof (induction xs arbitrary: m)
  case Nil
  then show ?case by simp
next
  case (Cons x xs)
  let ?S = "(\<lambda>x. \<bar>x\<bar>) ` set xs"
  have "Max (insert (max m \<bar>x\<bar>) ?S) = Max (insert m (insert \<bar>x\<bar> ?S))"
    by (cases "?S = {}") (simp_all add: max.assoc)
  with Cons show ?case by simp
qed

lemma peak_loop_nonempty:
  assumes "xs \<noteq> []"
  shows "peak_loop 0 xs = Max ((\<lambda>x. \<bar>x\<bar>) ` set xs)"
proof -
  let ?S = "(\<lambda>x. \<bar>x\<bar>) ` set xs"
  have fin: "finite ?S" by simp
  have ne: "?S \<noteq> {}" using assms by simp
  have "\<bar>hd xs\<bar> \<in> ?S" using assms by simp
  then have "\<bar>hd xs\<bar> \<le> Max ?S" using fin by (rule Max_ge [rotated])
  then have "0 \<le> Max ?S" by linarith
  then have "max 0 (Max ?S) = Max ?S" by (rule max_absorb2)
  moreover have "Max (insert 0 ?S) = max 0 (Max ?S)"
    using fin ne by (rule Max_insert)
  ultimately show ?thesis by (simp only: peak_loop_Max)
qed

lemma typed_set_whole: "length src = length tgt \<Longrightarrow> typed_set tgt src 0 = Inr src"
  by (simp add: typed_set_def)

lemma normalize_step_new:
  assumes r: "r < length h" and k: "k < numberOfChannels (h ! r)" "k < length (channels (h ! r))"
    and nb: "k < numberOfChannels nb" "k < length cs"
    and len: "length normalizedData = length (cs ! k)"
            "length (channels (h ! r) ! k) = length (cs ! k)"
  shows "normalize_step normalizedData r (length h) k (h @ [nb\<lparr>channels := cs\<rparr>]) =
           Inr (h @ [nb\<lparr>channels := cs[k := (if k = 0 then normalizedData
                                                  else channels (h ! r) ! k)]\<rparr>])"
  using assms
  by (simp add: normalize_step_def channel_of_def deref_append_old deref_append_new
      getChannelData_def store_channel_append_new typed_set_whole)

lemma normalizeAudio_silent:
  assumes "r < length h" "wf_buffer (h ! r)" "peak_loop 0 (channels (h ! r) ! 0) = 0"
  shows "normalizeAudio h r = Inr (h, r)"
  using assms wf_bufferD [OF assms(2)]
  by (simp add: normalizeAudio_def deref_def getChannelData_def)

lemma normalizeAudio_scaled:
  assumes r: "r < length h" and wf: "wf_buffer (h ! r)"
    and mx: "peak_loop 0 (channels (h ! r) ! 0) = mx" "mx \<noteq> 0"
  shows "normalizeAudio h r =
           Inr (h @ [\<lparr>numberOfChannels = numberOfChannels (h ! r), buf_length = buf_length (h ! r),
                       sampleRate = sampleRate (h ! r),
                       channels =
                         map (\<lambda>c. if c = 0
                                   then map (\<lambda>sample. float32 (binary64
                                               (sample * binary64 (binary64 (95 / 100) / mx))))
                                          (channels (h ! r) ! 0)
                                   else channels (h ! r) ! c)
                           [0..<numberOfChannels (h ! r)]\<rparr>],
                length h)"
proof -
  let ?ab = "h ! r"
  let ?n = "numberOfChannels ?ab" and ?L = "buf_length ?ab"
  let ?nd = "map (\<lambda>sample. float32 (binary64 (sample * binary64 (binary64 (95 / 100) / mx))))
               (channels ?ab ! 0)"
  let ?nb0 = "\<lparr>numberOfChannels = ?n, buf_length = ?L, sampleRate = sampleRate ?ab,
                 channels = replicate ?n (replicate ?L 0)\<rparr>"
  let ?g = "\<lambda>c. if c = 0 then ?nd else channels ?ab ! c"
  note d = wf_bufferD [OF wf]
  have fr: "to_unsigned_long (Num (real ?L)) = ?L"
    using d(6) by (rule to_unsigned_long_nat)
  have cb: "createBuffer h ?n (Num (real ?L)) (sampleRate ?ab) = Inr (h @ [?nb0], length h)"
    using createBuffer_ok [of ?n "Num (real ?L)" "sampleRate ?ab" h] d(1,2,3)
    unfolding fr by simp
  have ndlen: "length ?nd = ?L" using d(1) d(5) [of 0] by simp
  have "for_channels 0 ?n (normalize_step ?nd r (length h))
          (h @ [?nb0\<lparr>channels := replicate ?n (replicate ?L 0)\<rparr>]) =
        Inr (h @ [?nb0\<lparr>channels := map ?g [0..<?n]\<rparr>])"
  proof (rule for_channels_fill)
    fix k and cs :: "real list list"
    assume k: "k < ?n" and cs: "length cs = ?n" "cs ! k = replicate ?L 0"
    show "normalize_step ?nd r (length h) k (h @ [?nb0\<lparr>channels := cs\<rparr>]) =
            Inr (h @ [?nb0\<lparr>channels := cs[k := ?g k]\<rparr>])"
      by (rule normalize_step_new) (use r k cs d ndlen in simp_all)
  qed
  then have loop: "for_channels 0 ?n (normalize_step ?nd r (length h)) (h @ [?nb0]) =
        Inr (h @ [?nb0\<lparr>channels := map ?g [0..<?n]\<rparr>])"
    by simp
  have ch0: "getChannelData ?ab 0 = Inr (channels ?ab ! 0)"
    using d by (simp add: getChannelData_def)
  show ?thesis
    using r mx cb loop by (simp add: normalizeAudio_def deref_def ch0 Let_def)
qed

text \<open>
  Claim C5. \<^verbatim>\<open>normalizeAudio\<close> decides on the greatest absolute sample of channel 0
  alone. When it is \<open>0\<close> the result is the reference it was given, and the store is
  unchanged: no buffer is created. Otherwise the result is a new buffer in which channel 0
  is the input's, every sample times the gain \<open>0.95 / max\<close>, and every other channel is
  the input's, unchanged. The arithmetic is that of the code: \<open>0.95\<close> is the binary64
  number nearest to \<open>95/100\<close>, the quotient and each product are rounded to binary64, and
  the product is stored as an element of the \<^verbatim>\<open>Float32Array\<close>.
\<close>

theorem normalizeAudio_channel0:
  assumes "r < length h" "wf_buffer (h ! r)"
  shows "(Max ((\<lambda>x. \<bar>x\<bar>) ` set (channels (h ! r) ! 0)) = 0 \<longrightarrow>
            normalizeAudio h r = Inr (h, r)) \<and>
         (Max ((\<lambda>x. \<bar>x\<bar>) ` set (channels (h ! r) ! 0)) \<noteq> 0 \<longrightarrow>
            (\<exists>nb. normalizeAudio h r = Inr (h @ [nb], length h) \<and>
               length (channels nb) = numberOfChannels (h ! r) \<and>
               channels nb ! 0 =
                 map (\<lambda>x. float32 (binary64 (x * binary64 (binary64 (95 / 100) /
                             Max ((\<lambda>x. \<bar>x\<bar>) ` set (channels (h ! r) ! 0))))))
                   (channels (h ! r) ! 0) \<and>
               (\<forall>c. 0 < c \<and> c < numberOfChannels (h ! r) \<longrightarrow>
                  channels nb ! c = channels (h ! r) ! c)))"
proof -
  note d = wf_bufferD [OF assms(2)]
  let ?mx = "Max ((\<lambda>x. \<bar>x\<bar>) ` set (channels (h ! r) ! 0))"
  have "channels (h ! r) ! 0 \<noteq> []"
    using d(1) d(2) d(5) [of 0] by auto
  then have peak: "peak_loop 0 (channels (h ! r) ! 0) = ?mx"
    by (rule peak_loop_nonempty)
  have A: "normalizeAudio h r = Inr (h, r)" if "?mx = 0"
    using normalizeAudio_silent [OF assms] peak that by simp
  have B: "\<exists>nb. normalizeAudio h r = Inr (h @ [nb], length h) \<and>
               length (channels nb) = numberOfChannels (h ! r) \<and>
               channels nb ! 0 =
                 map (\<lambda>x. float32 (binary64 (x * binary64 (binary64 (95 / 100) / ?mx))))
                   (channels (h ! r) ! 0) \<and>
               (\<forall>c. 0 < c \<and> c < numberOfChannels (h ! r) \<longrightarrow>
                  channels nb ! c = channels (h ! r) ! c)" if "?mx \<noteq> 0"
    using normalizeAudio_scaled [OF assms peak that] d(1) by simp
  from A B show ?thesis by blast
qed

lemma ninety_five_hundredths: "binary64 (95 / 100) = 4278419646001971 / 4503599627370496"
  by (rule binary64_eval [where e = "- 1" and m = 8556839292003942])
    (simp_all add: powr_minus_divide round_half_even_def Let_def)

lemma normalizing_gain:
  "binary64 (4278419646001971 / 4503599627370496 / (3 / 4)) =
     1426139882000657 / 1125899906842624"
  using binary64_dyadic [of 1426139882000657 50] by simp

lemma normalized_samples:
  "float32 (binary64 (1 / 4 * (1426139882000657 / 1125899906842624))) = 5312785 / 16777216"
  "float32 (binary64 (- 3 / 4 * (1426139882000657 / 1125899906842624))) =
     - (15938355 / 16777216)"
  "float32 (binary64 (1 / 2 * (1426139882000657 / 1125899906842624))) = 5312785 / 8388608"
proof -
  have a: "binary64 (1 / 4 * (1426139882000657 / 1125899906842624)) =
             1426139882000657 / 4503599627370496"
    using binary64_dyadic [of 1426139882000657 52] by simp
  have b: "float32 (1426139882000657 / 4503599627370496) = 5312785 / 16777216"
    by (rule float32_eval [where e = "- 2" and m = 10625570])
      (simp_all add: powr_minus_divide round_half_even_def Let_def)
  show "float32 (binary64 (1 / 4 * (1426139882000657 / 1125899906842624))) =
          5312785 / 16777216"
    by (simp only: a b)
  have a: "binary64 (- 3 / 4 * (1426139882000657 / 1125899906842624)) =
             - (4278419646001971 / 4503599627370496)"
    using binary64_dyadic [of "- 4278419646001971" 52] by simp
  have "float32 (4278419646001971 / 4503599627370496) = 15938355 / 16777216"
    by (rule float32_eval [where e = "- 1" and m = 15938355])
      (simp_all add: powr_minus_divide round_half_even_def Let_def)
  then have b: "float32 (- (4278419646001971 / 4503599627370496)) = - (15938355 / 16777216)"
    by (simp only: float32_minus)
  show "float32 (binary64 (- 3 / 4 * (1426139882000657 / 1125899906842624))) =
          - (15938355 / 16777216)"
    by (simp only: a b)
  have a: "binary64 (1 / 2 * (1426139882000657 / 1125899906842624)) =
             1426139882000657 / 2251799813685248"
    using binary64_dyadic [of 1426139882000657 51] by simp
  have b: "float32 (1426139882000657 / 2251799813685248) = 5312785 / 8388608"
    by (rule float32_eval [where e = "- 1" and m = 10625570])
      (simp_all add: powr_minus_divide round_half_even_def Let_def)
  show "float32 (binary64 (1 / 2 * (1426139882000657 / 1125899906842624))) =
          5312785 / 8388608"
    by (simp only: a b)
qed

lemma wf_silent_pair: "wf_buffer silent_pair"
  by (simp add: wf_buffer_def silent_pair_def is_float32_exact)

theorem normalizeAudio_channel0_witness:
  "0 < length [stereo_pair, silent_pair] \<and> wf_buffer ([stereo_pair, silent_pair] ! 0) \<and>
   wf_buffer ([stereo_pair, silent_pair] ! 1) \<and>
   normalizeAudio [stereo_pair, silent_pair] 1 = Inr ([stereo_pair, silent_pair], 1) \<and>
   (\<exists>nb. normalizeAudio [stereo_pair, silent_pair] 0 = Inr ([stereo_pair, silent_pair, nb], 2) \<and>
      channels nb ! 0 = [5312785 / 16777216, - (15938355 / 16777216), 5312785 / 8388608] \<and>
      channels nb ! 1 = [0, 1, - 1])"
proof -
  have wf0: "wf_buffer ([stereo_pair, silent_pair] ! 0)"
    by (simp add: wf_stereo_pair)
  have wf1: "wf_buffer ([stereo_pair, silent_pair] ! 1)"
    by (simp add: wf_silent_pair)
  have m0: "Max ((\<lambda>x. \<bar>x\<bar>) ` set (channels ([stereo_pair, silent_pair] ! 0) ! 0)) = 3 / 4"
    by (simp add: stereo_pair_def)
  have m1: "Max ((\<lambda>x. \<bar>x\<bar>) ` set (channels ([stereo_pair, silent_pair] ! 1) ! 0)) = 0"
    by (simp add: silent_pair_def)
  have "normalizeAudio [stereo_pair, silent_pair] 1 = Inr ([stereo_pair, silent_pair], 1)"
    using normalizeAudio_channel0 [of 1 "[stereo_pair, silent_pair]"] wf1 m1 by simp
  moreover have "\<exists>nb. normalizeAudio [stereo_pair, silent_pair] 0 =
        Inr ([stereo_pair, silent_pair, nb], 2) \<and>
      channels nb ! 0 = [5312785 / 16777216, - (15938355 / 16777216), 5312785 / 8388608] \<and>
      channels nb ! 1 = [0, 1, - 1]"
  proof -
    from normalizeAudio_channel0 [of 0 "[stereo_pair, silent_pair]"] wf0
    obtain nb where nb: "normalizeAudio [stereo_pair, silent_pair] 0 =
          Inr ([stereo_pair, silent_pair] @ [nb], length [stereo_pair, silent_pair])"
      and c0: "channels nb ! 0 =
                 map (\<lambda>x. float32 (binary64 (x * binary64 (binary64 (95 / 100) / (3 / 4)))))
                   (channels ([stereo_pair, silent_pair] ! 0) ! 0)"
      and rest: "\<forall>c. 0 < c \<and> c < numberOfChannels ([stereo_pair, silent_pair] ! 0) \<longrightarrow>
                  channels nb ! c = channels ([stereo_pair, silent_pair] ! 0) ! c"
      unfolding m0 by auto
    have ch: "channels ([stereo_pair, silent_pair] ! 0) ! 0 = [1 / 4, - 3 / 4, 1 / 2]"
      by (simp add: stereo_pair_def)
    have "channels nb ! 0 =
            [5312785 / 16777216, - (15938355 / 16777216), 5312785 / 8388608]"
      unfolding c0 ch ninety_five_hundredths normalizing_gain
      by (simp only: list.map normalized_samples)
    moreover have "channels nb ! 1 = channels ([stereo_pair, silent_pair] ! 0) ! 1"
      using rest by (simp add: stereo_pair_def)
    ultimately show ?thesis using nb by (simp add: stereo_pair_def)
  qed
  ultimately show ?thesis using wf0 wf1 by simp
qed

subsection \<open>Trim and cut\<close>

lemma duration_15_44100: "binary64 (15 / 44100) = 6274402746159711 / 18446744073709551616"
proof -
  have "binary64 (15 / 44100) =
          of_int (round_half_even ((15 / 44100) / 2 powr of_int (- 12 - 52))) *
            2 powr of_int (- 12 - 52)"
    by (rule binary64_at_exponent) (simp_all add: powr_minus_divide)
  also have "(2::real) powr of_int (- 12 - 52) = 1 / 18446744073709551616"
    by (simp add: powr_minus_divide)
  also have "round_half_even ((15 / 44100) / (1 / 18446744073709551616)) = 6274402746159711"
    by (simp add: round_half_even_def Let_def)
  finally show ?thesis by simp
qed

lemma product_15_44100:
  "binary64 (6274402746159711 / 18446744073709551616 * 44100) =
     8444249301319679 / 562949953421312"
proof -
  let ?x = "6274402746159711 / 18446744073709551616 * 44100 :: real"
  have "binary64 ?x =
          of_int (round_half_even (?x / 2 powr of_int (3 - 52))) * 2 powr of_int (3 - 52)"
    by (rule binary64_at_exponent) simp_all
  also have "(2::real) powr of_int (3 - 52) = 1 / 562949953421312"
    by (simp add: powr_minus_divide)
  also have "round_half_even (?x / (1 / 562949953421312)) = 8444249301319679"
    by (simp add: round_half_even_def Let_def)
  finally show ?thesis by simp
qed

lemma subarray_inside:
  assumes "0 \<le> s" "s \<le> e" "e \<le> int (length arr)"
  shows "subarray arr s e = take (nat (e - s)) (drop (nat s) arr)"
  using assms by (simp add: subarray_def Let_def min_def)

lemma trim_write_inside:
  assumes "0 \<le> s" "s \<le> e" "e \<le> int (length src)" "length tgt = nat (e - s)"
  shows "trim_write s e src tgt = Inr (take (nat (e - s)) (drop (nat s) src))"
proof -
  have "length (take (nat (e - s)) (drop (nat s) src)) = length tgt"
    using assms by simp
  then show ?thesis
    using assms by (simp only: trim_write_def subarray_inside typed_set_whole)
qed

lemma trimAudio_eq:
  assumes r: "r < length h" and wf: "wf_buffer (h ! r)"
    and s: "sample_of_time (h ! r) startTime = s" and e: "sample_of_time (h ! r) endTime = e"
    and range: "0 \<le> s" "s < e" "e \<le> int (buf_length (h ! r))"
  shows "trimAudio h r startTime endTime =
           Inr (h @ [\<lparr>numberOfChannels = numberOfChannels (h ! r), buf_length = nat (e - s),
                       sampleRate = sampleRate (h ! r),
                       channels = map (\<lambda>src. take (nat (e - s)) (drop (nat s) src))
                                    (channels (h ! r))\<rparr>],
                length h)"
proof -
  let ?ab = "h ! r"
  let ?n = "numberOfChannels ?ab"
  let ?nb0 = "\<lparr>numberOfChannels = ?n, buf_length = nat (e - s), sampleRate = sampleRate ?ab,
                 channels = replicate ?n (replicate (nat (e - s)) 0)\<rparr>"
  let ?F = "\<lambda>src. take (nat (e - s)) (drop (nat s) src)"
  note d = wf_bufferD [OF wf]
  have "e - s < 2 ^ 32" using range d(6) by simp
  then have fr: "to_unsigned_long (Num (of_int (e - s))) = nat (e - s)"
    using range unfolding to_unsigned_long_int by simp
  have cb: "createBuffer h ?n (Num (of_int (e - s))) (sampleRate ?ab) =
              Inr (h @ [?nb0], length h)"
    using createBuffer_ok [of ?n "Num (of_int (e - s))" "sampleRate ?ab" h] d(1,3) range
    unfolding fr by simp
  have w: "trim_write s e (channels ?ab ! c) (replicate (nat (e - s)) 0) =
             Inr (?F (channels ?ab ! c))" if "c < ?n" for c
    by (rule trim_write_inside) (use range d(5) [OF that] in simp_all)
  have "fill_channels (trim_write s e) r ?n (h @ [?nb0], length h) =
          Inr (h @ [?nb0\<lparr>channels := map (\<lambda>c. ?F (channels ?ab ! c)) [0..<?n]\<rparr>], length h)"
    by (rule fill_channels_eq) (use r d w in simp_all)
  moreover have "map (\<lambda>c. ?F (channels ?ab ! c)) [0..<?n] = map ?F (channels ?ab)"
    using map_nth_channels [of ?F "channels ?ab"] d(4) by simp
  ultimately show ?thesis
    using r cb s e by (simp add: trimAudio_def deref_def Let_def)
qed

text \<open>
  Claim C9 at a buffer of 15 frames at 44100 Hz. The duration \<open>15 / 44100\<close> is rounded
  to a binary64 number a little below the quotient; its product with 44100 rounds to
  \<open>14.999999999999998\<close>, whose floor is 14. \<^verbatim>\<open>trimAudio(buf, 0, buf.duration)\<close> returns
  a buffer of 14 frames: the last frame is lost.
\<close>

theorem trimAudio_full_duration_drops_frame:
  "wf_buffer fifteen_frames \<and>
   trimAudio [fifteen_frames] 0 0 (duration fifteen_frames) =
     Inr ([fifteen_frames,
           \<lparr>numberOfChannels = 1, buf_length = 14, sampleRate = 44100,
            channels = [[1 / 16, 1 / 8, 3 / 16, 1 / 4, 5 / 16, 3 / 8, 7 / 16, 1 / 2,
                         9 / 16, 5 / 8, 11 / 16, 3 / 4, 13 / 16, 7 / 8]]\<rparr>], 1)"
proof -
  have wf: "wf_buffer fifteen_frames"
    by (simp add: wf_buffer_def fifteen_frames_def is_float32_exact)
  have dur: "duration fifteen_frames = 6274402746159711 / 18446744073709551616"
    using duration_15_44100 by (simp add: duration_def fifteen_frames_def)
  have s: "sample_of_time ([fifteen_frames] ! 0) 0 = 0"
    by (simp add: sample_of_time_def binary64_zero)
  have "sample_of_time ([fifteen_frames] ! 0) (duration fifteen_frames) =
          \<lfloor>binary64 (6274402746159711 / 18446744073709551616 * 44100)\<rfloor>"
    unfolding dur by (simp add: sample_of_time_def fifteen_frames_def)
  also have "\<dots> = 14"
    unfolding product_15_44100 by simp
  finally have e: "sample_of_time ([fifteen_frames] ! 0) (duration fifteen_frames) = 14" .
  have "trimAudio [fifteen_frames] 0 0 (duration fifteen_frames) =
          Inr ([fifteen_frames] @
               [\<lparr>numberOfChannels = numberOfChannels ([fifteen_frames] ! 0),
                 buf_length = nat (14 - 0), sampleRate = sampleRate ([fifteen_frames] ! 0),
                 channels = map (\<lambda>src. take (nat (14 - 0)) (drop (nat 0) src))
                              (channels ([fifteen_frames] ! 0))\<rparr>],
               length [fifteen_frames])"
    by (rule trimAudio_eq [OF _ _ s e]) (simp_all add: wf, simp add: fifteen_frames_def)
  then show ?thesis
    using wf by (simp add: fifteen_frames_def)
qed

subsection \<open>Sample rate and channel count\<close>

lemma cut_write_inside:
  assumes "0 \<le> s" "s \<le> e" "e \<le> int (length src)"
    "length tgt = nat (int (length src) - (e - s))"
  shows "cut_write s e src tgt = Inr (take (nat s) src @ drop (nat e) src)"
proof -
  obtain a b where ab: "s = int a" "e = int b"
    using assms(1,2) by (metis nonneg_int_cases order_trans)
  have le: "a \<le> b" "b \<le> length src" using assms(2,3) ab by simp_all
  have tgt: "length tgt = length src - (b - a)"
    using assms(4) ab le by (simp add: nat_diff_distrib' of_nat_diff)
  have first: "subarray src 0 (int a) = take a src"
    using le subarray_inside [of 0 "int a" src] by simp
  have second: "subarray src (int b) (int (length src)) = drop b src"
    using le subarray_inside [of "int b" "int (length src)" src]
    by (simp add: nat_diff_distrib' of_nat_diff)
  have set1: "typed_set tgt (take a src) 0 = Inr (take a src @ drop a tgt)"
    using le tgt by (simp add: typed_set_def min_absorb2)
  have set2: "typed_set (take a src @ drop a tgt) (drop b src) (int a) =
                Inr (take a src @ drop b src)"
    using le tgt by (simp add: typed_set_def min_absorb2)
  show ?thesis
    by (simp add: cut_write_def first second set1 set2 ab)
qed

lemma cutAudio_eq:
  assumes r: "r < length h" and wf: "wf_buffer (h ! r)"
    and s: "sample_of_time (h ! r) startTime = s" and e: "sample_of_time (h ! r) endTime = e"
    and range: "0 \<le> s" "s \<le> e" "e \<le> int (buf_length (h ! r))"
      "1 \<le> int (buf_length (h ! r)) - (e - s)"
  shows "cutAudio h r startTime endTime =
           Inr (h @ [\<lparr>numberOfChannels = numberOfChannels (h ! r),
                       buf_length = nat (int (buf_length (h ! r)) - (e - s)),
                       sampleRate = sampleRate (h ! r),
                       channels = map (\<lambda>src. take (nat s) src @ drop (nat e) src)
                                    (channels (h ! r))\<rparr>],
                length h)"
proof -
  let ?ab = "h ! r"
  let ?n = "numberOfChannels ?ab" and ?N = "int (buf_length ?ab) - (e - s)"
  let ?nb0 = "\<lparr>numberOfChannels = ?n, buf_length = nat ?N, sampleRate = sampleRate ?ab,
                 channels = replicate ?n (replicate (nat ?N) 0)\<rparr>"
  let ?F = "\<lambda>src. take (nat s) src @ drop (nat e) src"
  note d = wf_bufferD [OF wf]
  have "?N < 2 ^ 32" using range d(6) by simp
  then have fr: "to_unsigned_long (Num (of_int ?N)) = nat ?N"
    using range unfolding to_unsigned_long_int by simp
  have cb: "createBuffer h ?n (Num (of_int ?N)) (sampleRate ?ab) = Inr (h @ [?nb0], length h)"
    using createBuffer_ok [of ?n "Num (of_int ?N)" "sampleRate ?ab" h] d(1,3) range
    unfolding fr by simp
  have w: "cut_write s e (channels ?ab ! c) (replicate (nat ?N) 0) =
             Inr (?F (channels ?ab ! c))" if "c < ?n" for c
    by (rule cut_write_inside) (use range d(5) [OF that] in simp_all)
  have "fill_channels (cut_write s e) r ?n (h @ [?nb0], length h) =
          Inr (h @ [?nb0\<lparr>channels := map (\<lambda>c. ?F (channels ?ab ! c)) [0..<?n]\<rparr>], length h)"
    by (rule fill_channels_eq) (use r d w in simp_all)
  moreover have "map (\<lambda>c. ?F (channels ?ab ! c)) [0..<?n] = map ?F (channels ?ab)"
    using map_nth_channels [of ?F "channels ?ab"] d(4) by simp
  ultimately show ?thesis
    using r cb s e by (simp add: cutAudio_def deref_def Let_def)
qed

lemma createBuffer_meta:
  assumes "createBuffer h nch len rate = Inr (h1, nr)"
  shows "nr = length h \<and> length h1 = Suc (length h) \<and>
         numberOfChannels (h1 ! nr) = nch \<and> sampleRate (h1 ! nr) = rate"
  using assms by (auto simp: createBuffer_def Let_def split: if_splits)

lemma created_then_filled:
  assumes r: "r < length h"
    and cb: "createBuffer h (numberOfChannels (h ! r)) len (sampleRate (h ! r)) = Inr created"
    and fill: "fill_channels write r n created = Inr (h', r')"
  shows "same_format h r h' r'"
proof -
  obtain h1 nr where created: "created = (h1, nr)" by (cases created)
  note m = createBuffer_meta [OF cb [unfolded created]]
  have "nr < length h1" using m by simp
  from fill_channels_meta [OF fill [unfolded created] this] m r
  show ?thesis by (auto simp: same_format_def)
qed

lemma normalize_step_meta:
  assumes "normalize_step nd r nr c h = Inr h'" "nr < length h"
  shows "length h' = length h \<and> numberOfChannels (h' ! nr) = numberOfChannels (h ! nr) \<and>
         sampleRate (h' ! nr) = sampleRate (h ! nr)"
  using assms store_channel_meta [of nr h c]
  by (auto simp: normalize_step_def split: sum.splits)

lemma normalizeAudio_format:
  assumes "normalizeAudio h r = Inr (h', r')"
  shows "same_format h r h' r'"
proof -
  from assms have r: "r < length h"
    by (auto simp: normalizeAudio_def deref_def split: if_splits)
  let ?ab = "h ! r"
  from assms r obtain channelData where ch: "getChannelData ?ab 0 = Inr channelData"
    by (auto simp: normalizeAudio_def deref_def split: sum.splits)
  show ?thesis
  proof (cases "peak_loop 0 channelData = 0")
    case True
    with assms r ch have "h' = h" "r' = r"
      by (simp_all add: normalizeAudio_def deref_def)
    with r show ?thesis by (simp add: same_format_def)
  next
    case False
    let ?nd = "map (\<lambda>sample. float32 (binary64
                 (sample * binary64 (binary64 (95 / 100) / peak_loop 0 channelData))))
               channelData"
    from assms r ch False obtain h1 nr where
      cb: "createBuffer h (numberOfChannels ?ab) (Num (real (buf_length ?ab)))
             (sampleRate ?ab) = Inr (h1, nr)"
      and run: "for_channels 0 (numberOfChannels ?ab) (normalize_step ?nd r nr) h1 = Inr h'"
      and r': "r' = nr"
      by (auto simp: normalizeAudio_def deref_def Let_def split: sum.splits)
    note m = createBuffer_meta [OF cb]
    have nr: "nr < length h1" using m by simp
    let ?I = "\<lambda>s. length s = length h1 \<and>
                numberOfChannels (s ! nr) = numberOfChannels (h1 ! nr) \<and>
                sampleRate (s ! nr) = sampleRate (h1 ! nr)"
    have "?I h'"
    proof (rule for_channels_invariant [OF run, where I = ?I])
      show "?I h1" by simp
    next
      fix k s s'
      assume "k < numberOfChannels ?ab" "?I s" "normalize_step ?nd r nr k s = Inr s'"
      then show "?I s'"
        using normalize_step_meta [of ?nd r nr k s s'] nr by simp
    qed
    with m r r' show ?thesis by (auto simp: same_format_def)
  qed
qed

text \<open>
  Claim C10. Whenever \<^verbatim>\<open>normalizeAudio\<close>, \<^verbatim>\<open>amplifyAudio\<close>, \<^verbatim>\<open>pitchShift\<close>,
  \<^verbatim>\<open>changeSpeed\<close>, \<^verbatim>\<open>trimAudio\<close> or \<^verbatim>\<open>cutAudio\<close> returns a buffer, that buffer has
  the sample rate and the number of channels of the input buffer, whatever the input and
  the parameters are.
\<close>

theorem transforms_keep_rate_and_channels:
  "(normalizeAudio h r = Inr (h', r') \<longrightarrow> same_format h r h' r') \<and>
   (amplifyAudio h r gain = Inr (h', r') \<longrightarrow> same_format h r h' r') \<and>
   (pitchShift h r semitones = Inr (h', r') \<longrightarrow> same_format h r h' r') \<and>
   (changeSpeed h r speed = Inr (h', r') \<longrightarrow> same_format h r h' r') \<and>
   (trimAudio h r startTime endTime = Inr (h', r') \<longrightarrow> same_format h r h' r') \<and>
   (cutAudio h r startTime endTime = Inr (h', r') \<longrightarrow> same_format h r h' r')"
proof (intro conjI impI)
  assume "normalizeAudio h r = Inr (h', r')"
  then show "same_format h r h' r'" by (rule normalizeAudio_format)
next
  assume "amplifyAudio h r gain = Inr (h', r')"
  then show "same_format h r h' r'"
    by (auto simp: amplifyAudio_def deref_def split: if_splits sum.splits
        intro: created_then_filled)
next
  assume "pitchShift h r semitones = Inr (h', r')"
  then show "same_format h r h' r'"
    by (auto simp: pitchShift_def deref_def Let_def split: if_splits sum.splits
        intro: created_then_filled)
next
  assume "changeSpeed h r speed = Inr (h', r')"
  then show "same_format h r h' r'"
    by (auto simp: changeSpeed_def deref_def Let_def split: if_splits sum.splits
        intro: created_then_filled)
next
  assume "trimAudio h r startTime endTime = Inr (h', r')"
  then show "same_format h r h' r'"
    by (auto simp: trimAudio_def deref_def Let_def split: if_splits sum.splits
        intro: created_then_filled)
next
  assume "cutAudio h r startTime endTime = Inr (h', r')"
  then show "same_format h r h' r'"
    by (auto simp: cutAudio_def deref_def Let_def split: if_splits sum.splits
        intro: created_then_filled)
qed

theorem transforms_keep_rate_and_channels_witness:
  "(\<exists>h' r'. normalizeAudio [stereo_pair] 0 = Inr (h', r') \<and>
      sampleRate (h' ! r') = 8000 \<and> numberOfChannels (h' ! r') = 2) \<and>
   (\<exists>h' r'. amplifyAudio [stereo_pair] 0 3 = Inr (h', r') \<and>
      sampleRate (h' ! r') = 8000 \<and> numberOfChannels (h' ! r') = 2) \<and>
   (\<exists>h' r'. pitchShift [stereo_pair] 0 12 = Inr (h', r') \<and>
      sampleRate (h' ! r') = 8000 \<and> numberOfChannels (h' ! r') = 2) \<and>
   (\<exists>h' r'. changeSpeed [stereo_pair] 0 (1 / 2) = Inr (h', r') \<and>
      sampleRate (h' ! r') = 8000 \<and> numberOfChannels (h' ! r') = 2) \<and>
   (\<exists>h' r'. trimAudio [stereo_pair] 0 0 (1 / 4000) = Inr (h', r') \<and>
      sampleRate (h' ! r') = 8000 \<and> numberOfChannels (h' ! r') = 2) \<and>
   (\<exists>h' r'. cutAudio [stereo_pair] 0 0 (1 / 4000) = Inr (h', r') \<and>
      sampleRate (h' ! r') = 8000 \<and> numberOfChannels (h' ! r') = 2)"
proof -
  have wf: "wf_buffer ([stereo_pair] ! 0)" by (simp add: wf_stereo_pair)
  have fmt: "sampleRate (h' ! r') = 8000 \<and> numberOfChannels (h' ! r') = 2"
    if "same_format [stereo_pair] 0 h' r'" for h' r'
    using that by (simp add: same_format_def stereo_pair_def)
  have s0: "sample_of_time ([stereo_pair] ! 0) 0 = 0"
    by (simp add: sample_of_time_def binary64_zero)
  have s2: "sample_of_time ([stereo_pair] ! 0) (1 / 4000) = 2"
    by (simp add: sample_of_time_def stereo_pair_def binary64_exact)
  have len: "buf_length ([stereo_pair] ! 0) = 3" by (simp add: stereo_pair_def)
  have "peak_loop 0 (channels ([stereo_pair] ! 0) ! 0) = 3 / 4"
    by (simp add: stereo_pair_def)
  from normalizeAudio_scaled [OF _ wf this]
  obtain hn rn where n: "normalizeAudio [stereo_pair] 0 = Inr (hn, rn)" by simp
  from amplifyAudio_eq [OF _ wf, of 3]
  obtain ha ra where a: "amplifyAudio [stereo_pair] 0 3 = Inr (ha, ra)" by simp
  have "\<exists>res. changeSpeed [stereo_pair] 0 2 = Inr res"
    by (rule changeSpeed_completes [OF _ wf]) (simp_all add: stereo_pair_def binary64_exact)
  moreover have "pitchShift [stereo_pair] 0 12 = changeSpeed [stereo_pair] 0 2"
    using pitchShift_as_changeSpeed [of 0 "[stereo_pair]" 12] by (simp add: binary64_exact)
  ultimately obtain hp rp where p: "pitchShift [stereo_pair] 0 12 = Inr (hp, rp)" by auto
  have "\<exists>res. changeSpeed [stereo_pair] 0 (1 / 2) = Inr res"
    by (rule changeSpeed_completes [OF _ wf]) (simp_all add: stereo_pair_def binary64_exact)
  then obtain hs rs where s: "changeSpeed [stereo_pair] 0 (1 / 2) = Inr (hs, rs)" by auto
  from trimAudio_eq [OF _ wf s0 s2]
  obtain ht rt where t: "trimAudio [stereo_pair] 0 0 (1 / 4000) = Inr (ht, rt)"
    unfolding len by simp
  from cutAudio_eq [OF _ wf s0 s2]
  obtain hc rc where c: "cutAudio [stereo_pair] 0 0 (1 / 4000) = Inr (hc, rc)"
    unfolding len by simp
  have "same_format [stereo_pair] 0 hn rn"
    using transforms_keep_rate_and_channels [of "[stereo_pair]" 0 hn rn] n by simp
  moreover have "same_format [stereo_pair] 0 ha ra"
    using transforms_keep_rate_and_channels [of "[stereo_pair]" 0 ha ra 3] a by simp
  moreover have "same_format [stereo_pair] 0 hp rp"
    using transforms_keep_rate_and_channels [of "[stereo_pair]" 0 hp rp _ 12] p by simp
  moreover have "same_format [stereo_pair] 0 hs rs"
    using transforms_keep_rate_and_channels [of "[stereo_pair]" 0 hs rs _ _ "1 / 2"] s by simp
  moreover have "same_format [stereo_pair] 0 ht rt"
    using transforms_keep_rate_and_channels [of "[stereo_pair]" 0 ht rt _ _ _ 0 "1 / 4000"] t
    by simp
  moreover have "same_format [stereo_pair] 0 hc rc"
    using transforms_keep_rate_and_channels [of "[stereo_pair]" 0 hc rc _ _ _ 0 "1 / 4000"] c
    by simp
  ultimately show ?thesis
    using n a p s t c fmt by blast
qed

subsection \<open>The WAV exporter\<close>

lemma byte_of_u32:
  assumes "k \<le> 24"
  shows "(ucast (drop_bit k (of_nat n :: 32 word)) :: byte) = of_nat (n div 2 ^ k mod 256)"
proof -
  have "n div 2 ^ k mod 256 = take_bit 8 (drop_bit k n)"
    by (simp add: take_bit_eq_mod drop_bit_eq_div)
  then show ?thesis
    using assms by (intro bit_word_eqI) (auto simp: bit_simps)
qed

lemma byte_of_u16:
  assumes "k \<le> 8"
  shows "(ucast (drop_bit k (of_nat n :: 16 word)) :: byte) = of_nat (n div 2 ^ k mod 256)"
proof -
  have "n div 2 ^ k mod 256 = take_bit 8 (drop_bit k n)"
    by (simp add: take_bit_eq_mod drop_bit_eq_div)
  then show ?thesis
    using assms by (intro bit_word_eqI) (auto simp: bit_simps)
qed

lemma setUint32_le:
  assumes "byteOffset + 4 \<le> length view"
  shows "setUint32 view byteOffset v =
           Inr (take byteOffset view @ u32le v @ drop (byteOffset + 4) view)"
proof -
  have b: "(ucast (of_nat v :: 32 word) :: byte) = of_nat (v mod 256)"
    "(ucast (drop_bit 8 (of_nat v :: 32 word)) :: byte) = of_nat (v div 256 mod 256)"
    "(ucast (drop_bit 16 (of_nat v :: 32 word)) :: byte) = of_nat (v div 65536 mod 256)"
    "(ucast (drop_bit 24 (of_nat v :: 32 word)) :: byte) = of_nat (v div 16777216 mod 256)"
    using byte_of_u32 [of 0 v] byte_of_u32 [of 8 v] byte_of_u32 [of 16 v] byte_of_u32 [of 24 v]
    by simp_all
  obtain pre a0 a1 a2 a3 post where view: "view = pre @ a0 # a1 # a2 # a3 # post"
    and pre: "length pre = byteOffset"
  proof -
    let ?r = "drop byteOffset view"
    have "4 \<le> length ?r" using assms by simp
    then obtain a0 a1 a2 a3 post where "?r = a0 # a1 # a2 # a3 # post"
      by (cases ?r; simp) (metis Suc_le_length_iff numeral_3_eq_3)
    then have "view = take byteOffset view @ a0 # a1 # a2 # a3 # post"
      by (metis append_take_drop_id)
    moreover have "length (take byteOffset view) = byteOffset" using assms by simp
    ultimately show ?thesis using that by blast
  qed
  show ?thesis
    unfolding view using pre
    by (simp add: setUint32_def Let_def b u32le_def list_update_append)
qed

lemma setUint16_le:
  assumes "byteOffset + 2 \<le> length view"
  shows "setUint16 view byteOffset v =
           Inr (take byteOffset view @ u16le v @ drop (byteOffset + 2) view)"
proof -
  have b: "(ucast (of_nat v :: 16 word) :: byte) = of_nat (v mod 256)"
    "(ucast (drop_bit 8 (of_nat v :: 16 word)) :: byte) = of_nat (v div 256 mod 256)"
    using byte_of_u16 [of 0 v] byte_of_u16 [of 8 v] by simp_all
  obtain pre a0 a1 post where view: "view = pre @ a0 # a1 # post"
    and pre: "length pre = byteOffset"
  proof -
    let ?r = "drop byteOffset view"
    have "2 \<le> length ?r" using assms by simp
    then obtain a0 a1 post where "?r = a0 # a1 # post"
      by (cases ?r; simp) (metis Suc_le_length_iff)
    then have "view = take byteOffset view @ a0 # a1 # post"
      by (metis append_take_drop_id)
    moreover have "length (take byteOffset view) = byteOffset" using assms by simp
    ultimately show ?thesis using that by blast
  qed
  show ?thesis
    unfolding view using pre
    by (simp add: setUint16_def Let_def b u16le_def list_update_append)
qed

lemma writeString_le:
  "offset + length s \<le> length view \<Longrightarrow>
     writeString view offset s =
       Inr (take offset view @ ascii s @ drop (offset + length s) view)"
proof (induction s arbitrary: view offset)
  case Nil
  then show ?case by (simp add: ascii_def)
next
  case (Cons c cs)
  let ?v = "view[offset := of_nat (of_char c)]"
  have "setUint8 view offset (of_char c) = Inr ?v"
    using Cons.prems by (simp add: setUint8_def)
  moreover have "writeString ?v (Suc offset) cs =
      Inr (take (Suc offset) ?v @ ascii cs @ drop (Suc offset + length cs) ?v)"
    using Cons.prems by (intro Cons.IH) simp
  moreover have "take (Suc offset) ?v = take offset view @ [of_nat (of_char c)]"
    using Cons.prems by (simp add: take_Suc_conv_app_nth)
  moreover have "drop (Suc offset + length cs) ?v = drop (offset + length (c # cs)) view"
    by simp
  ultimately show ?case
    by (simp add: and_then_def ascii_def)
qed

lemma length_fields [simp]:
  "length (u32le n) = 4" "length (u16le n) = 2" "length (ascii s) = length s"
  by (simp_all add: u32le_def u16le_def ascii_def)

lemma written_splice:
  assumes "length pre = off" "length bytes \<le> m"
  shows "take off (written pre m) @ bytes @ drop (off + length bytes) (written pre m) =
           written (pre @ bytes) (m - length bytes)"
  using assms by (simp add: written_def)

lemma setUint32_written:
  assumes "length pre = off" "4 \<le> m"
  shows "setUint32 (written pre m) off v = Inr (written (pre @ u32le v) (m - 4))"
proof -
  have "off + 4 \<le> length (written pre m)" using assms by (simp add: written_def)
  from setUint32_le [OF this] written_splice [OF assms(1), of "u32le v" m] assms(2)
  show ?thesis by simp
qed

lemma setUint16_written:
  assumes "length pre = off" "2 \<le> m"
  shows "setUint16 (written pre m) off v = Inr (written (pre @ u16le v) (m - 2))"
proof -
  have "off + 2 \<le> length (written pre m)" using assms by (simp add: written_def)
  from setUint16_le [OF this] written_splice [OF assms(1), of "u16le v" m] assms(2)
  show ?thesis by simp
qed

lemma writeString_written:
  assumes "length pre = off" "length s \<le> m"
  shows "writeString (written pre m) off s = Inr (written (pre @ ascii s) (m - length s))"
proof -
  have "off + length s \<le> length (written pre m)" using assms by (simp add: written_def)
  from writeString_le [OF this] written_splice [OF assms(1), of "ascii s" m] assms(2)
  show ?thesis by simp
qed

lemma set_from_written:
  assumes "length pre = off" "length source = m"
  shows "set_from (written pre m) off source = Inr (pre @ source)"
  using assms by (simp add: set_from_def written_def and_then_def typed_set_def)

lemma length_wav_header: "length (wav_header n rate) = 44"
  by (simp add: wav_header_def)

text \<open>
  Claim C4. For every byte sequence and sample rate, \<^verbatim>\<open>exportAsWAV\<close> returns a blob of
  \<open>44 + dataLength\<close> bytes: the 44 bytes of \<open>wav_header\<close>, which are \<open>RIFF\<close> at 0,
  \<open>36 + dataLength\<close> (u32) at 4, \<open>WAVE\<close> at 8, \<open>fmt \<close> at 12, 16 (u32) at 16, 1 (u16) at
  20, 1 (u16) at 22, the sample rate (u32) at 24 and again at 28, 1 (u16) at 32, 8 (u16)
  at 34, \<open>data\<close> at 36 and \<open>dataLength\<close> (u32) at 40, all little-endian, and then the PCM
  bytes unchanged from byte 44. No write of the header leaves the buffer.
\<close>

theorem exportAsWAV_layout:
  "exportAsWAV pcmData rate =
     Inr \<lparr>blob_bytes = wav_header (length pcmData) rate @ pcmData, blob_type = ''audio/wav''\<rparr> \<and>
   length (wav_header (length pcmData) rate @ pcmData) = 44 + length pcmData \<and>
   take 44 (wav_header (length pcmData) rate @ pcmData) = wav_header (length pcmData) rate \<and>
   drop 44 (wav_header (length pcmData) rate @ pcmData) = pcmData"
proof -
  let ?n = "length pcmData"
  have start: "new_ArrayBuffer (44 + ?n) = written [] (44 + ?n)"
    by (simp add: new_ArrayBuffer_def written_def)
  have "exportAsWAV pcmData rate =
     Inr \<lparr>blob_bytes = wav_header ?n rate @ pcmData, blob_type = ''audio/wav''\<rparr>"
    unfolding exportAsWAV_def start
    by (simp add: and_then_def writeString_written setUint32_written setUint16_written
        set_from_written wav_header_def del: writeString.simps)
  then show ?thesis
    by (simp add: length_wav_header)
qed

subsection \<open>The C array exporter\<close>

lemma show_nat_digit: "n < 10 \<Longrightarrow> show_nat n = [digit_char n]"
  by (subst show_nat.simps) simp

lemma show_nat_more: "10 \<le> n \<Longrightarrow> show_nat n = show_nat (n div 10) @ [digit_char (n mod 10)]"
  by (subst show_nat.simps) simp

lemma group16_Nil: "group16 [] = []"
  by (subst group16.simps) simp

lemma group16_Cons: "xs \<noteq> [] \<Longrightarrow> group16 xs = take 16 xs # group16 (drop 16 xs)"
  by (subst group16.simps) simp

lemma group16_empty_iff: "group16 xs = [] \<longleftrightarrow> xs = []"
  by (subst group16.simps) simp

lemma chunk_is_take:
  assumes "i < length pcmData"
  shows "subarray pcmData (int i) (int (min (i + 16) (length pcmData))) = take 16 (drop i pcmData)"
proof -
  have "subarray pcmData (int i) (int (min (i + 16) (length pcmData))) =
          take (nat (int (min (i + 16) (length pcmData)) - int i)) (drop (nat (int i)) pcmData)"
    using assms by (intro subarray_inside) simp_all
  also have "\<dots> = take (min (i + 16) (length pcmData) - i) (drop i pcmData)"
    using assms by (simp add: nat_diff_distrib' of_nat_diff)
  also have "\<dots> = take 16 (drop i pcmData)"
    by (cases "i + 16 \<le> length pcmData") (simp_all add: min_def)
  finally show ?thesis .
qed

lemma chunk_loop_rows:
  "chunk_loop pcmData i lines =
     lines @ rows (padStart 3 CHR '' '') (group16 (drop i pcmData))"
proof (induction pcmData i lines rule: chunk_loop.induct)
  case (1 pcmData i lines)
  show ?case
  proof (cases "i < length pcmData")
    case True
    let ?chunk = "take 16 (drop i pcmData)"
    let ?line = "''  '' @ join '', '' (map (\<lambda>v. padStart 3 CHR '' '' (show_nat (unat v))) ?chunk) @
                   (if i + 16 < length pcmData then '','' else '''')"
    have ne: "drop i pcmData \<noteq> []" using True by simp
    have rest: "drop 16 (drop i pcmData) = drop (i + 16) pcmData"
      by (simp add: add.commute)
    have last: "(group16 (drop (i + 16) pcmData) = []) = (\<not> i + 16 < length pcmData)"
      by (simp add: group16_empty_iff not_less)
    have g: "group16 (drop i pcmData) = ?chunk # group16 (drop (i + 16) pcmData)"
      by (subst group16_Cons [OF ne]) (simp only: rest)
    have "chunk_loop pcmData i lines = chunk_loop pcmData (i + 16) (lines @ [?line])"
      using True by (subst chunk_loop.simps) (simp add: chunk_is_take Let_def)
    also have "\<dots> = (lines @ [?line]) @
                 rows (padStart 3 CHR '' '') (group16 (drop (i + 16) pcmData))"
      using "1.IH" [OF True refl refl] by (simp add: chunk_is_take [OF True])
    also have "\<dots> = lines @ rows (padStart 3 CHR '' '') (group16 (drop i pcmData))"
      unfolding g by (simp add: last)
    finally show ?thesis .
  next
    case False
    then show ?thesis
      by (subst chunk_loop.simps) (simp add: group16_Nil)
  qed
qed

lemma exportAsCArray_eq:
  "exportAsCArray pcmData options =
     c_array_text (padStart 3 CHR '' '')
       (case arrayName options of None \<Rightarrow> ''audioData'' | Some n \<Rightarrow> n)
       (export_sampleRate options) pcmData"
  by (simp add: exportAsCArray_def c_array_text_def chunk_loop_rows Let_def)

lemma show_small:
  "show_nat 0 = ''0''" "show_nat 3 = ''3''" "show_nat 128 = ''128''" "show_nat 255 = ''255''"
  "show_nat 8000 = ''8000''"
  by (simp_all add: show_nat_digit show_nat_more digit_char_def)

lemma pad_small:
  "padStart 3 CHR '' '' ''0'' = ''  0''" "padStart 3 CHR '' '' ''128'' = ''128''"
  "padStart 3 CHR '' '' ''255'' = ''255''"
  "padEnd 3 CHR '' '' ''0'' = ''0  ''" "padEnd 3 CHR '' '' ''128'' = ''128''"
  "padEnd 3 CHR '' '' ''255'' = ''255''"
  by (simp_all add: padStart_def padEnd_def numeral_2_eq_2)

lemma show_length_three: "show_nat (length [a, b, c]) = ''3''"
  using show_small(2) by (simp add: numeral_3_eq_3)

lemma group16_three: "group16 [a, b, c] = [[a, b, c]]"
  by (simp add: group16_Cons group16_Nil)

text \<open>
  Claim C8, as stated, fails on the padding: for the bytes 0, 128, 255 the value 0 is
  written \<open>"  0"\<close>, padded on the left, and not \<open>"0  "\<close> as padding on the right to
  width 3 would give.
\<close>

theorem exportAsCArray_pads_on_the_left:
  "exportAsCArray [0, 128, 255] three_bytes_as_x =
     join [CHR 0x0A]
       [''// PCM Audio Data - 3 samples'',
        ''// Sample Rate: 8000 Hz'',
        ''// Format: 8-bit unsigned PCM'',
        ''const uint8_t x[] = {'',
        ''    0, 128, 255'',
        ''};'',
        ''const size_t x_length = 3;''] \<and>
   c_array_text (padEnd 3 CHR '' '') ''x'' 8000 [0, 128, 255] =
     join [CHR 0x0A]
       [''// PCM Audio Data - 3 samples'',
        ''// Sample Rate: 8000 Hz'',
        ''// Format: 8-bit unsigned PCM'',
        ''const uint8_t x[] = {'',
        ''  0  , 128, 255'',
        ''};'',
        ''const size_t x_length = 3;''] \<and>
   exportAsCArray [0, 128, 255] three_bytes_as_x \<noteq>
     c_array_text (padEnd 3 CHR '' '') ''x'' 8000 [0, 128, 255]"
proof -
  have a: "exportAsCArray [0, 128, 255] three_bytes_as_x =
     join [CHR 0x0A]
       [''// PCM Audio Data - 3 samples'',
        ''// Sample Rate: 8000 Hz'',
        ''// Format: 8-bit unsigned PCM'',
        ''const uint8_t x[] = {'',
        ''    0, 128, 255'',
        ''};'',
        ''const size_t x_length = 3;'']"
    by (simp add: exportAsCArray_eq c_array_text_def three_bytes_as_x_def group16_three
        show_small show_length_three pad_small del: list.size)
  have b: "c_array_text (padEnd 3 CHR '' '') ''x'' 8000 [0, 128, 255] =
     join [CHR 0x0A]
       [''// PCM Audio Data - 3 samples'',
        ''// Sample Rate: 8000 Hz'',
        ''// Format: 8-bit unsigned PCM'',
        ''const uint8_t x[] = {'',
        ''  0  , 128, 255'',
        ''};'',
        ''const size_t x_length = 3;'']"
    by (simp add: c_array_text_def group16_three show_small show_length_three pad_small del: list.size)
  have "exportAsCArray [0, 128, 255] three_bytes_as_x \<noteq>
     c_array_text (padEnd 3 CHR '' '') ''x'' 8000 [0, 128, 255]"
    unfolding a b by simp
  with a b show ?thesis by blast
qed

text \<open>
  Claim C8, amended. For every byte sequence and options, \<^verbatim>\<open>exportAsCArray\<close> returns the
  three comment lines, the line \<^verbatim>\<open>const uint8_t <arrayName>[] = {\<close>, the values 16 per
  line, each padded on the left with spaces to width 3, separated by \<open>", "\<close> (each line
  indented by two spaces, and ended by a comma unless it is the last), then \<^verbatim>\<open>};\<close> and
  \<^verbatim>\<open>const size_t <arrayName>_length = N;\<close>, joined by newlines. For the bytes 0, 128, 255
  and the name \<open>x\<close> the lines are the seven listed.
\<close>

theorem exportAsCArray_text:
  "exportAsCArray pcmData options =
     c_array_text (padStart 3 CHR '' '')
       (case arrayName options of None \<Rightarrow> ''audioData'' | Some n \<Rightarrow> n)
       (export_sampleRate options) pcmData \<and>
   exportAsCArray [0, 128, 255] three_bytes_as_x =
     join [CHR 0x0A]
       [''// PCM Audio Data - 3 samples'',
        ''// Sample Rate: 8000 Hz'',
        ''// Format: 8-bit unsigned PCM'',
        ''const uint8_t x[] = {'',
        ''    0, 128, 255'',
        ''};'',
        ''const size_t x_length = 3;'']"
  by (simp add: exportAsCArray_eq c_array_text_def three_bytes_as_x_def group16_three
      show_small show_length_three pad_small del: list.size)

end
